theory Spec2Isabelle
  imports Complex_Main
begin

section \<open>Errors\<close>

text \<open>
  The exceptions the Python of \<^verbatim>\<open>deduplicate_utils.py\<close> can raise, as values.
  A function that can raise returns \<open>error + 'a\<close>, with \<open>Inl\<close> for the exception.
\<close>

datatype error =
    KeyError string
  | IndexError
  | RuntimeError
  | JSONDecodeError
  | AttributeError
  | TypeError
  | UnicodeEncodeError

section \<open>Python dictionaries and lists\<close>

text \<open>
  A dictionary whose iteration order matters is an association list in insertion order.
  \<^verbatim>\<open>d[k] = v\<close> replaces the value of a present key, in place, and appends an absent
  key.
\<close>

fun dict_set :: "'k \<Rightarrow> 'v \<Rightarrow> ('k \<times> 'v) list \<Rightarrow> ('k \<times> 'v) list" where
  "dict_set k v [] = [(k, v)]"
| "dict_set k v ((k', v') # d) =
     (if k' = k then (k', v) # d else (k', v') # dict_set k v d)"

text \<open>
  \<^verbatim>\<open>d[k].append(v)\<close> on a \<^verbatim>\<open>defaultdict(list)\<close>: an absent key is created, at
  the end, with the list \<open>[v]\<close>.
\<close>

fun dict_append :: "'k \<Rightarrow> 'v \<Rightarrow> ('k \<times> 'v list) list \<Rightarrow> ('k \<times> 'v list) list" where
  "dict_append k v [] = [(k, [v])]"
| "dict_append k v ((k', vs) # d) =
     (if k' = k then (k', vs @ [v]) # d else (k', vs) # dict_append k v d)"

text \<open>Reading \<^verbatim>\<open>d[k]\<close> on a \<^verbatim>\<open>defaultdict(list)\<close>: an absent key reads as \<open>[]\<close>.\<close>

definition dict_get_list :: "('k \<times> 'v list) list \<Rightarrow> 'k \<Rightarrow> 'v list" where
  "dict_get_list d k = (case map_of d k of None \<Rightarrow> [] | Some vs \<Rightarrow> vs)"

section \<open>Step 1: the lookup builder (\<^verbatim>\<open>build_id_lookup\<close>)\<close>

text \<open>
  A well-typed metadata entry, as far as \<^verbatim>\<open>build_id_lookup\<close> reads it. Every field
  is read with \<^verbatim>\<open>entry.get(...)\<close> or \<^verbatim>\<open>entry[...]\<close> and can be absent:
  \<open>None\<close> is the absent key. A field that is present holds a value of its type in
  the data model: vector ids are integers (\<^verbatim>\<open>dict[int, dict]\<close>), file ids are
  integers (\<^verbatim>\<open>Dict[int, bool]\<close> in \<^verbatim>\<open>update_duplicate_flags\<close>), names and
  prefixes are strings, \<^verbatim>\<open>clips\<close> is a list of clip objects, \<^verbatim>\<open>quality\<close> and
  \<^verbatim>\<open>metadata\<close> are objects; a float is the real number it stands for, no arithmetic
  is done on any of them.

  The value \<^verbatim>\<open>null\<close> is covered where the code cannot tell it from the absent key,
  and \<open>None\<close> stands for both: a vector id (\<^verbatim>\<open>if fid is not None\<close>), the media
  type, and the clip fields \<^verbatim>\<open>clip_idx\<close>, \<^verbatim>\<open>start_s\<close> and \<^verbatim>\<open>end_s\<close>. An
  entry that has \<^verbatim>\<open>null\<close> in another field, or a value of another type in any
  field, is not a value of this type. On such an entry the code does other things
  (it raises TypeError on a null \<^verbatim>\<open>clips\<close> and AttributeError on a null
  \<^verbatim>\<open>quality\<close> or \<^verbatim>\<open>metadata\<close>, and it stores a null \<^verbatim>\<open>file_id\<close> in the
  lookup record without any error); the properties of the lookup builder below are
  about well-typed entries only.
\<close>

record clip =
  c_clip_idx :: "int option"
  c_faiss_id :: "int option"
  c_start_s :: "real option"
  c_end_s :: "real option"

record quality =
  q_variance :: "real option"

record metadata =
  m_quality :: "quality option"

record media_entry =
  e_media_type :: "string option"
  e_clips :: "clip list option"
  e_faiss_id :: "int option"
  e_file_id :: "int option"
  e_file_name :: "string option"
  e_prefix :: "string option"
  e_duration :: "real option"
  e_quality :: "quality option"
  e_metadata :: "metadata option"

text \<open>
  A lookup record. Its first six fields are the ones \<^verbatim>\<open>write_dedup_jsonl\<close> copies
  into each side of a clip pair, so they are a record of their own, which the lookup
  record extends.
\<close>

record clip_side =
  file_id :: int
  file_name :: string
  media_type :: string
  clip_idx :: "int option"
  start_s :: "real option"
  end_s :: "real option"

record lookup_record = clip_side +
  faiss_id :: int
  prefix :: string
  duration :: real
  variance :: real

type_synonym lookup = "(int \<times> lookup_record) list"

text \<open>
  The dictionary literal of the video branch. \<^verbatim>\<open>entry["file_id"]\<close> and
  \<^verbatim>\<open>entry["file_name"]\<close> raise KeyError on an absent key, in this order; every other
  field has a default.
\<close>

definition video_record :: "media_entry \<Rightarrow> clip \<Rightarrow> int \<Rightarrow> error + lookup_record" where
  "video_record entry clip fid =
     (case e_file_id entry of
        None \<Rightarrow> Inl (KeyError ''file_id'')
      | Some fi \<Rightarrow>
          (case e_file_name entry of
             None \<Rightarrow> Inl (KeyError ''file_name'')
           | Some fn \<Rightarrow>
               Inr \<lparr>file_id = fi, file_name = fn, media_type = ''video'',
                    clip_idx = c_clip_idx clip,
                    start_s = c_start_s clip, end_s = c_end_s clip,
                    faiss_id = fid,
                    prefix = (case e_prefix entry of None \<Rightarrow> '''' | Some p \<Rightarrow> p),
                    duration = (case e_duration entry of None \<Rightarrow> 0 | Some d \<Rightarrow> d),
                    variance =
                      (case e_quality entry of
                         None \<Rightarrow> 0
                       | Some q \<Rightarrow> (case q_variance q of None \<Rightarrow> 0 | Some v \<Rightarrow> v))\<rparr>))"

text \<open>The dictionary literal of the image branch.\<close>

definition image_record :: "media_entry \<Rightarrow> int \<Rightarrow> error + lookup_record" where
  "image_record entry fid =
     (case e_file_id entry of
        None \<Rightarrow> Inl (KeyError ''file_id'')
      | Some fi \<Rightarrow>
          (case e_file_name entry of
             None \<Rightarrow> Inl (KeyError ''file_name'')
           | Some fn \<Rightarrow>
               Inr \<lparr>file_id = fi, file_name = fn, media_type = ''image'',
                    clip_idx = None, start_s = None, end_s = None,
                    faiss_id = fid,
                    prefix = (case e_prefix entry of None \<Rightarrow> '''' | Some p \<Rightarrow> p),
                    duration = 0,
                    variance =
                      (case e_metadata entry of
                         None \<Rightarrow> 0
                       | Some m \<Rightarrow>
                           (case m_quality m of
                              None \<Rightarrow> 0
                            | Some q \<Rightarrow> (case q_variance q of None \<Rightarrow> 0 | Some v \<Rightarrow> v)))\<rparr>))"

text \<open>
  The loop over the clips of a video entry:
  \<^verbatim>\<open>
  for clip in entry.get("clips", []):
      fid = clip.get("faiss_id")
      if fid is not None:
          lookup[fid] = {...}
  \<close>
\<close>

fun add_clips :: "media_entry \<Rightarrow> clip list \<Rightarrow> lookup \<Rightarrow> error + lookup" where
  "add_clips entry [] lookup = Inr lookup"
| "add_clips entry (clip # clips) lookup =
     (case c_faiss_id clip of
        None \<Rightarrow> add_clips entry clips lookup
      | Some fid \<Rightarrow>
          (case video_record entry clip fid of
             Inl e \<Rightarrow> Inl e
           | Inr r \<Rightarrow> add_clips entry clips (dict_set fid r lookup)))"

text \<open>The loop over the entries; an entry of any other media type is passed over.\<close>

fun build_entries :: "media_entry list \<Rightarrow> lookup \<Rightarrow> error + lookup" where
  "build_entries [] lookup = Inr lookup"
| "build_entries (entry # database) lookup =
     (if e_media_type entry = Some ''video'' then
        (case add_clips entry (case e_clips entry of None \<Rightarrow> [] | Some cs \<Rightarrow> cs) lookup of
           Inl e \<Rightarrow> Inl e
         | Inr lookup' \<Rightarrow> build_entries database lookup')
      else if e_media_type entry = Some ''image'' then
        (case e_faiss_id entry of
           None \<Rightarrow> build_entries database lookup
         | Some fid \<Rightarrow>
             (case image_record entry fid of
                Inl e \<Rightarrow> Inl e
              | Inr r \<Rightarrow> build_entries database (dict_set fid r lookup)))
      else build_entries database lookup)"

definition build_id_lookup :: "media_entry list \<Rightarrow> error + lookup" where
  "build_id_lookup database = build_entries database []"

text \<open>
  An entry carries a vector id when the loop reaches one of the two dictionary literals
  for it: a video entry with a clip whose \<^verbatim>\<open>faiss_id\<close> is present, or an image entry
  whose \<^verbatim>\<open>faiss_id\<close> is present.
\<close>

definition has_vector_id :: "media_entry \<Rightarrow> bool" where
  "has_vector_id entry \<longleftrightarrow>
     (e_media_type entry = Some ''video'' \<and>
        list_ex (\<lambda>clip. c_faiss_id clip \<noteq> None)
          (case e_clips entry of None \<Rightarrow> [] | Some cs \<Rightarrow> cs)) \<or>
     (e_media_type entry = Some ''image'' \<and> e_faiss_id entry \<noteq> None)"

section \<open>Step 2: the duplicate grouper (\<^verbatim>\<open>collect_groups\<close>)\<close>

subsection \<open>The adjacency structure\<close>

text \<open>
  \<^verbatim>\<open>neighbors = defaultdict(set)\<close>: a dictionary from vector id to a set of vector
  ids. A Python dictionary iterates over its keys in insertion order, and the component
  loop iterates over it, so the dictionary is an association list in insertion order.
  The values are sets.
\<close>

type_synonym adj = "(int \<times> int set) list"

text \<open>\<^verbatim>\<open>neighbors[k].add(v)\<close>: an absent key is created, at the end, with the set \<open>{v}\<close>.\<close>

fun adj_add :: "int \<Rightarrow> int \<Rightarrow> adj \<Rightarrow> adj" where
  "adj_add k v [] = [(k, {v})]"
| "adj_add k v ((k', S) # nb) =
     (if k' = k then (k', insert v S) # nb else (k', S) # adj_add k v nb)"

text \<open>
  The inner loop of the adjacency construction, for one query row whose canonical id is
  \<open>qid\<close>:
  \<^verbatim>\<open>
  for j in labels[start:end]:
      jid = int(j)
      if jid == -1 or jid == qid:
          continue
      neighbors[qid].add(jid)
      neighbors[jid].add(qid)
  \<close>
\<close>

fun add_row :: "int \<Rightarrow> int list \<Rightarrow> adj \<Rightarrow> adj" where
  "add_row qid [] nb = nb"
| "add_row qid (jid # js) nb =
     (if jid = - 1 \<or> jid = qid then add_row qid js nb
      else add_row qid js (adj_add jid qid (adj_add qid jid nb)))"

text \<open>
  \<^verbatim>\<open>labels[start:end]\<close>: a slice never raises; it is empty when \<open>end \<le> start\<close> or
  when \<open>start\<close> is beyond the array. The row offsets \<open>lims\<close> are unsigned in FAISS.
\<close>

definition slice :: "'a list \<Rightarrow> nat \<Rightarrow> nat \<Rightarrow> 'a list" where
  "slice xs start end = take (end - start) (drop start xs)"

text \<open>
  The outer loop, over the query rows \<open>qi\<close> of \<^verbatim>\<open>range(len(embeddings))\<close>:
  \<^verbatim>\<open>
  start, end = lims[qi], lims[qi + 1]
  if start == end:
      continue
  qid = int(labels[start])
  \<close>
  Reading \<open>lims\<close> or \<open>labels\<close> out of range raises IndexError.
\<close>

fun build_rows :: "nat list \<Rightarrow> int list \<Rightarrow> nat list \<Rightarrow> adj \<Rightarrow> error + adj" where
  "build_rows lims labels [] nb = Inr nb"
| "build_rows lims labels (qi # qis) nb =
     (if length lims \<le> Suc qi then Inl IndexError
      else let start = lims ! qi; end = lims ! Suc qi in
        if start = end then build_rows lims labels qis nb
        else if length labels \<le> start then Inl IndexError
        else build_rows lims labels qis
               (add_row (labels ! start) (slice labels start end) nb))"

text \<open>
  The adjacency structure of a range-search result \<open>(lims, labels)\<close> for a batch of
  \<open>n\<close> embeddings. The range search itself (and the normalisation before it) is the
  external index; its result is the input here.
\<close>

definition build_adj :: "nat \<Rightarrow> nat list \<Rightarrow> int list \<Rightarrow> error + adj" where
  "build_adj n lims labels = build_rows lims labels [0..<n] []"

subsection \<open>Component extraction\<close>

text \<open>
  The traversal of one component:
  \<^verbatim>\<open>
  while stack:
      cur = stack.pop()
      if cur in visited:
          continue
      visited.add(cur)
      comp.append(cur)
      stack.extend(neighbors[cur] - visited)
  \<close>
  The stack is held with its top at the head of the list, so \<^verbatim>\<open>extend\<close> puts the
  new elements in front, reversed. The order in which Python iterates over the set
  \<^verbatim>\<open>neighbors[cur] - visited\<close> is not specified by the language; it is the
  parameter \<open>ord\<close>, which lists the elements of a set.

  \<^verbatim>\<open>neighbors[cur]\<close> on a \<^verbatim>\<open>defaultdict\<close> inserts an absent key. The
  surrounding \<^verbatim>\<open>for node in neighbors\<close> then raises RuntimeError (dictionary changed
  size during iteration) at its next step, whatever the traversal did in between, so an
  absent key is that error here. The list \<^verbatim>\<open>comp\<close> is \<open>acc\<close>.
\<close>

function dfs ::
  "(int set \<Rightarrow> int list) \<Rightarrow> adj \<Rightarrow> int set \<Rightarrow> int list \<Rightarrow> int list \<Rightarrow> error + (int set \<times> int list)"
where
  "dfs ord nb visited [] acc = Inr (visited, acc)"
| "dfs ord nb visited (cur # stack) acc =
     (if cur \<in> visited then dfs ord nb visited stack acc
      else case map_of nb cur of
        None \<Rightarrow> Inl RuntimeError
      | Some ns \<Rightarrow>
          dfs ord nb (insert cur visited)
            (rev (ord (ns - insert cur visited)) @ stack) (acc @ [cur]))"
  by pat_completeness auto
termination
proof (relation "measures [\<lambda>(ord, nb, visited, stack, acc). card (fst ` set nb - visited),
                          \<lambda>(ord, nb, visited, stack, acc). length stack]")
  show "wf (measures [\<lambda>(ord, nb, visited, stack, acc). card (fst ` set nb - visited),
                      \<lambda>(ord, nb, visited, stack, acc). length stack])"
    by simp
next
  fix ord :: "int set \<Rightarrow> int list" and nb :: adj and visited :: "int set"
    and cur :: int and stack acc :: "int list"
  assume "cur \<in> visited"
  then show "((ord, nb, visited, stack, acc), (ord, nb, visited, cur # stack, acc))
    \<in> measures [\<lambda>(ord, nb, visited, stack, acc). card (fst ` set nb - visited),
                 \<lambda>(ord, nb, visited, stack, acc). length stack]"
    by simp
next
  fix ord :: "int set \<Rightarrow> int list" and nb :: adj and visited :: "int set"
    and cur :: int and stack acc :: "int list" and ns :: "int set"
  assume unvisited: "cur \<notin> visited" and key: "map_of nb cur = Some ns"
  from key have "cur \<in> fst ` set nb"
    by (metis domI dom_map_of_conv_image_fst)
  with unvisited have mem: "cur \<in> fst ` set nb - visited"
    by simp
  have fin: "finite (fst ` set nb - visited)"
    by simp
  have "fst ` set nb - insert cur visited = (fst ` set nb - visited) - {cur}"
    by auto
  with card_Diff1_less [OF fin mem]
  have "card (fst ` set nb - insert cur visited) < card (fst ` set nb - visited)"
    by simp
  then show "((ord, nb, insert cur visited, rev (ord (ns - insert cur visited)) @ stack,
               acc @ [cur]),
              (ord, nb, visited, cur # stack, acc))
    \<in> measures [\<lambda>(ord, nb, visited, stack, acc). card (fst ` set nb - visited),
                 \<lambda>(ord, nb, visited, stack, acc). length stack]"
    by simp
qed

text \<open>
  The loop over the keys of the adjacency structure, in insertion order:
  \<^verbatim>\<open>
  for node in neighbors:
      if node in visited:
          continue
      stack, comp = [node], []
      ... the traversal ...
      groups.append(comp)
  \<close>
\<close>

fun components ::
  "(int set \<Rightarrow> int list) \<Rightarrow> adj \<Rightarrow> int list \<Rightarrow> int set \<Rightarrow> int list list \<Rightarrow> error + int list list"
where
  "components ord nb [] visited groups = Inr groups"
| "components ord nb (node # nodes) visited groups =
     (if node \<in> visited then components ord nb nodes visited groups
      else case dfs ord nb visited [node] [] of
        Inl e \<Rightarrow> Inl e
      | Inr (visited', acc) \<Rightarrow> components ord nb nodes visited' (groups @ [acc]))"

definition extract_components :: "(int set \<Rightarrow> int list) \<Rightarrow> adj \<Rightarrow> error + int list list" where
  "extract_components ord nb = components ord nb (map fst nb) {} []"

definition collect_groups ::
  "(int set \<Rightarrow> int list) \<Rightarrow> nat \<Rightarrow> nat list \<Rightarrow> int list \<Rightarrow> error + int list list"
where
  "collect_groups ord n lims labels =
     (case build_adj n lims labels of
        Inl e \<Rightarrow> Inl e
      | Inr nb \<Rightarrow> extract_components ord nb)"

subsection \<open>The graph of an adjacency structure\<close>

text \<open>
  The notions the properties of the grouper are stated with. An edge of the adjacency
  structure is a pair \<open>(k, v)\<close> with \<open>v\<close> in \<^verbatim>\<open>neighbors[k]\<close>; the ids that
  appear in at least one edge are the field of that relation.
\<close>

definition adj_edges :: "adj \<Rightarrow> (int \<times> int) set" where
  "adj_edges nb = {(k, v). \<exists>S. map_of nb k = Some S \<and> v \<in> S}"

definition edge_ids :: "adj \<Rightarrow> int set" where
  "edge_ids nb = Field (adj_edges nb)"

text \<open>
  What is assumed of the order in which a set is iterated: it lists the elements of the
  set, all of them and nothing else.
\<close>

definition set_order :: "(int set \<Rightarrow> int list) \<Rightarrow> bool" where
  "set_order ord \<longleftrightarrow> (\<forall>S. finite S \<longrightarrow> set (ord S) = S)"

text \<open>
  The range-search results on which the construction of the adjacency structure reads
  no array out of range: \<open>lims\<close> has an entry after every row, and a non-empty row
  starts inside \<open>labels\<close>.
\<close>

definition csr_ok :: "nat \<Rightarrow> nat list \<Rightarrow> int list \<Rightarrow> bool" where
  "csr_ok n lims labels \<longleftrightarrow>
     (\<forall>qi\<in>set [0..<n]. Suc qi < length lims \<and>
        (lims ! qi \<noteq> lims ! Suc qi \<longrightarrow> lims ! qi < length labels))"

text \<open>
  The invariant of the adjacency construction: the keys are distinct, the edge relation
  is symmetric and has no self-loop, every key has a neighbour, and every neighbour set
  is finite.
\<close>

definition good_adj :: "adj \<Rightarrow> bool" where
  "good_adj nb \<longleftrightarrow>
     distinct (map fst nb) \<and> sym (adj_edges nb) \<and> irrefl (adj_edges nb) \<and>
     dom (map_of nb) = Domain (adj_edges nb) \<and>
     (\<forall>k S. map_of nb k = Some S \<longrightarrow> finite S)"

text \<open>
  The components as the specification defines them, for comparison with the traversal:
  a component is the set of ids connected to a key, and the keys are taken in order,
  leaving out those already covered.
\<close>

fun spec_components :: "(int \<times> int) set \<Rightarrow> int list \<Rightarrow> int set \<Rightarrow> int set list" where
  "spec_components E [] V = []"
| "spec_components E (k # ks) V =
     (if k \<in> V then spec_components E ks V
      else E\<^sup>* `` {k} # spec_components E ks (V \<union> E\<^sup>* `` {k}))"

section \<open>Step 3: the pair aggregator and record writer (\<^verbatim>\<open>write_dedup_jsonl\<close>)\<close>

text \<open>A clip pair, as appended to \<^verbatim>\<open>pair_map\<close>, and a line of the output.\<close>

record clip_pair =
  original :: clip_side
  duplicate :: clip_side

record dup_record =
  original_file_id :: int
  original_file_name :: string
  original_duration :: real
  duplicate_file_id :: int
  duplicate_file_name :: string
  duplicate_duration :: real
  clips :: "clip_pair list"

text \<open>
  \<^verbatim>\<open>pair_map = defaultdict(list)\<close>, keyed by the pair \<^verbatim>\<open>(fid_a, fid_b)\<close>; the
  writer iterates over it, in insertion order.
\<close>

type_synonym pair_map = "((int \<times> int) \<times> clip_pair list) list"

text \<open>\<^verbatim>\<open>entries = [lookup[i] for i in group if i in lookup]\<close>\<close>

definition mapped_entries :: "lookup \<Rightarrow> int list \<Rightarrow> lookup_record list" where
  "mapped_entries lookup grp =
     concat (map (\<lambda>i. case map_of lookup i of None \<Rightarrow> [] | Some e \<Rightarrow> [e]) grp)"

text \<open>
  \<^verbatim>\<open>
  by_file = defaultdict(list)
  for e in entries:
      by_file[e["file_id"]].append(e)
  \<close>
\<close>

definition partition_by_file :: "lookup_record list \<Rightarrow> (int \<times> lookup_record list) list" where
  "partition_by_file entries = foldl (\<lambda>by_file e. dict_append (file_id e) e by_file) [] entries"

text \<open>The two dictionary literals of a clip pair: six fields of each side.\<close>

definition side :: "lookup_record \<Rightarrow> clip_side" where
  "side c = \<lparr>file_id = file_id c, file_name = file_name c, media_type = media_type c,
              clip_idx = clip_idx c, start_s = start_s c, end_s = end_s c\<rparr>"

definition make_clip_pair :: "lookup_record \<Rightarrow> lookup_record \<Rightarrow> clip_pair" where
  "make_clip_pair ca cb = \<lparr>original = side ca, duplicate = side cb\<rparr>"

text \<open>
  What one component appends to \<^verbatim>\<open>pair_map\<close>: the keys and clip pairs of the
  \<^verbatim>\<open>pair_map[(fid_a, fid_b)].append(...)\<close> calls, in the order of the four nested
  loops, and nothing when one of the three guards passes the component over.
  \<^verbatim>\<open>
  if len(group) <= 1: continue
  entries = ...
  if len(entries) <= 1: continue
  by_file = ...
  file_ids = list(by_file.keys())
  if len(file_ids) <= 1: continue
  for i in range(len(file_ids)):
      for j in range(i + 1, len(file_ids)):
          fid_a, fid_b = file_ids[i], file_ids[j]
          clips_a, clips_b = by_file[fid_a], by_file[fid_b]
          for ca in clips_a:
              for cb in clips_b:
                  pair_map[(fid_a, fid_b)].append({...})
  \<close>
\<close>

definition group_pairs :: "lookup \<Rightarrow> int list \<Rightarrow> ((int \<times> int) \<times> clip_pair) list" where
  "group_pairs lookup grp =
     (if length grp \<le> 1 then []
      else let entries = mapped_entries lookup grp in
        if length entries \<le> 1 then []
        else let by_file = partition_by_file entries; file_ids = map fst by_file in
          if length file_ids \<le> 1 then []
          else [((file_ids ! i, file_ids ! j), make_clip_pair ca cb).
                  i \<leftarrow> [0..<length file_ids], j \<leftarrow> [i + 1..<length file_ids],
                  ca \<leftarrow> dict_get_list by_file (file_ids ! i),
                  cb \<leftarrow> dict_get_list by_file (file_ids ! j)])"

text \<open>One round of \<^verbatim>\<open>for group in groups\<close>, and the whole loop from the empty map.\<close>

definition process_group :: "lookup \<Rightarrow> pair_map \<Rightarrow> int list \<Rightarrow> pair_map" where
  "process_group lookup pair_map grp =
     foldl (\<lambda>pm (key, cp). dict_append key cp pm) pair_map (group_pairs lookup grp)"

definition accumulate :: "lookup \<Rightarrow> int list list \<Rightarrow> pair_map" where
  "accumulate lookup groups = foldl (process_group lookup) [] groups"

text \<open>
  \<^verbatim>\<open>
  orig_durations = [e["duration"] for e in lookup.values() if e["file_id"] == fid_a]
  ... orig_durations[0] if orig_durations else 0.0
  \<close>
\<close>

definition durations :: "lookup \<Rightarrow> int \<Rightarrow> real list" where
  "durations lookup fid = map duration (filter (\<lambda>e. file_id e = fid) (map snd lookup))"

definition first_or_zero :: "real list \<Rightarrow> real" where
  "first_or_zero ds = (case ds of [] \<Rightarrow> 0 | d # _ \<Rightarrow> d)"

text \<open>
  The record of one item of \<^verbatim>\<open>pair_map\<close>. \<^verbatim>\<open>clip_pairs[0]\<close> raises IndexError on
  an empty list.
\<close>

definition make_record :: "lookup \<Rightarrow> (int \<times> int) \<times> clip_pair list \<Rightarrow> error + dup_record" where
  "make_record lookup item =
     (case item of ((fid_a, fid_b), clip_pairs) \<Rightarrow>
        (case clip_pairs of
           [] \<Rightarrow> Inl IndexError
         | first # _ \<Rightarrow>
             Inr \<lparr>original_file_id = fid_a,
                  original_file_name = file_name (original first),
                  original_duration = first_or_zero (durations lookup fid_a),
                  duplicate_file_id = fid_b,
                  duplicate_file_name = file_name (duplicate first),
                  duplicate_duration = first_or_zero (durations lookup fid_b),
                  clips = clip_pairs\<rparr>))"

text \<open>
  The writing loop. The output is the list of the records written, one line each
  (\<^verbatim>\<open>json.dumps(record)\<close>), in the order of \<^verbatim>\<open>pair_map\<close>.
\<close>

fun write_records :: "lookup \<Rightarrow> pair_map \<Rightarrow> error + dup_record list" where
  "write_records lookup [] = Inr []"
| "write_records lookup (item # items) =
     (case make_record lookup item of
        Inl e \<Rightarrow> Inl e
      | Inr r \<Rightarrow>
          (case write_records lookup items of
             Inl e \<Rightarrow> Inl e
           | Inr rs \<Rightarrow> Inr (r # rs)))"

definition write_dedup_jsonl :: "int list list \<Rightarrow> lookup \<Rightarrow> error + dup_record list" where
  "write_dedup_jsonl groups lookup = write_records lookup (accumulate lookup groups)"

text \<open>
  For the statements about merging: all the clip pairs that the components of a run
  append under one key, in order.
\<close>

definition merged_pairs :: "lookup \<Rightarrow> int list list \<Rightarrow> int \<times> int \<Rightarrow> clip_pair list" where
  "merged_pairs lookup groups key =
     map snd (filter (\<lambda>kv. fst kv = key) (concat (map (group_pairs lookup) groups)))"

section \<open>The duplicate-flag updater (\<^verbatim>\<open>update_duplicate_flags\<close>)\<close>

text \<open>
  A value that \<^verbatim>\<open>json.loads\<close> returns. An object is a dictionary, in insertion
  order. A finite float is the real number it stands for; \<^verbatim>\<open>json.loads\<close> also
  accepts \<^verbatim>\<open>NaN\<close>, \<^verbatim>\<open>Infinity\<close> and \<^verbatim>\<open>-Infinity\<close>.
\<close>

datatype json =
    JNull
  | JBool bool
  | JInt int
  | JFloat real
  | JNaN
  | JInfinity bool
  | JStr string
  | JArr "json list"
  | JObj "(string \<times> json) list"

text \<open>
  The key of \<^verbatim>\<open>updates\<close> (a \<^verbatim>\<open>Dict[int, bool]\<close>) that a value is equal to, as
  \<^verbatim>\<open>fid in updates\<close> and \<^verbatim>\<open>updates[fid]\<close> find it: Python compares numbers by
  value, and \<^verbatim>\<open>True\<close> and \<^verbatim>\<open>False\<close> are the numbers 1 and 0. A list or a
  dictionary is unhashable: the membership test raises TypeError.
\<close>

fun dict_key :: "json \<Rightarrow> error + int option" where
  "dict_key JNull = Inr None"
| "dict_key (JBool b) = Inr (Some (if b then 1 else 0))"
| "dict_key (JInt i) = Inr (Some i)"
| "dict_key (JFloat r) = Inr (if of_int \<lfloor>r\<rfloor> = r then Some \<lfloor>r\<rfloor> else None)"
| "dict_key JNaN = Inr None"
| "dict_key (JInfinity s) = Inr None"
| "dict_key (JStr s) = Inr None"
| "dict_key (JArr xs) = Inl TypeError"
| "dict_key (JObj kvs) = Inl TypeError"

text \<open>\<^verbatim>\<open>entry.get("file_id")\<close>: an absent key reads as \<^verbatim>\<open>None\<close>.\<close>

definition get_file_id :: "(string \<times> json) list \<Rightarrow> json" where
  "get_file_id entry = (case map_of entry ''file_id'' of None \<Rightarrow> JNull | Some v \<Rightarrow> v)"

text \<open>
  The flag that \<^verbatim>\<open>updates\<close> holds for an entry: \<open>None\<close> when its \<^verbatim>\<open>file_id\<close> is
  not a key.
\<close>

definition lookup_flag :: "(int \<rightharpoonup> bool) \<Rightarrow> (string \<times> json) list \<Rightarrow> error + bool option" where
  "lookup_flag updates entry =
     (case dict_key (get_file_id entry) of
        Inl e \<Rightarrow> Inl e
      | Inr None \<Rightarrow> Inr None
      | Inr (Some k) \<Rightarrow> Inr (updates k))"

text \<open>
  One round of the update loop:
  \<^verbatim>\<open>
  fid = entry.get("file_id")
  if fid in updates:
      entry["duplicate"] = updates[fid]
  \<close>
  A line can hold any JSON value; only a dictionary has \<^verbatim>\<open>get\<close>, on anything else
  the call raises AttributeError.
\<close>

fun update_entry :: "(int \<rightharpoonup> bool) \<Rightarrow> json \<Rightarrow> error + json" where
  "update_entry updates (JObj entry) =
     (case lookup_flag updates entry of
        Inl e \<Rightarrow> Inl e
      | Inr None \<Rightarrow> Inr (JObj entry)
      | Inr (Some b) \<Rightarrow> Inr (JObj (dict_set ''duplicate'' (JBool b) entry)))"
| "update_entry updates v = Inl AttributeError"

fun update_entries :: "(int \<rightharpoonup> bool) \<Rightarrow> json list \<Rightarrow> error + json list" where
  "update_entries updates [] = Inr []"
| "update_entries updates (entry # entries) =
     (case update_entry updates entry of
        Inl e \<Rightarrow> Inl e
      | Inr entry' \<Rightarrow>
          (case update_entries updates entries of
             Inl e \<Rightarrow> Inl e
           | Inr entries' \<Rightarrow> Inr (entry' # entries')))"

text \<open>
  \<^verbatim>\<open>line.strip()\<close> is empty when every character of the line is whitespace. A
  \<open>char\<close> is a code point below 256; these are the whitespace characters of Python
  in that range.
\<close>

definition py_isspace :: "char \<Rightarrow> bool" where
  "py_isspace c \<longleftrightarrow> (of_char c :: nat) \<in> set [9, 10, 11, 12, 13, 28, 29, 30, 31, 32, 133, 160]"

definition blank :: "string \<Rightarrow> bool" where
  "blank line \<longleftrightarrow> list_all py_isspace line"

text \<open>
  The loading loop. A file is the list of its lines. \<^verbatim>\<open>json.loads\<close> is the
  parameter \<open>loads\<close>, with \<open>None\<close> for a line it rejects (JSONDecodeError).
  \<^verbatim>\<open>
  for line in f:
      if line.strip():
          entries.append(json.loads(line))
  \<close>
\<close>

fun load_entries :: "(string \<Rightarrow> json option) \<Rightarrow> string list \<Rightarrow> error + json list" where
  "load_entries loads [] = Inr []"
| "load_entries loads (line # lines) =
     (if blank line then load_entries loads lines
      else case loads line of
        None \<Rightarrow> Inl JSONDecodeError
      | Some v \<Rightarrow>
          (case load_entries loads lines of
             Inl e \<Rightarrow> Inl e
           | Inr vs \<Rightarrow> Inr (v # vs)))"

text \<open>
  The writing loop, after \<^verbatim>\<open>open(descriptions_path, "w")\<close> has emptied the file:
  \<^verbatim>\<open>
  for entry in entries:
      f.write(json.dumps(entry, ensure_ascii=False) + "\n")
  \<close>
  The parameter \<open>dumps\<close> is what this statement does with one entry: the line it
  writes, or the exception that \<^verbatim>\<open>json.dumps\<close> or \<^verbatim>\<open>f.write\<close> raises (a string
  that \<^verbatim>\<open>json.loads\<close> accepted can hold a lone surrogate, which the UTF-8 encoder
  of the file refuses with UnicodeEncodeError). An exception ends the loop; the lines
  written before it stay in the file. The result is the exception, if any, and the
  lines of the file.
\<close>

fun write_entries ::
  "(json \<Rightarrow> error + string) \<Rightarrow> json list \<Rightarrow> string list \<Rightarrow> error option \<times> string list"
where
  "write_entries dumps [] written = (None, written)"
| "write_entries dumps (entry # entries) written =
     (case dumps entry of
        Inl e \<Rightarrow> (Some e, written)
      | Inr line \<Rightarrow> write_entries dumps entries (written @ [line]))"

text \<open>
  The whole function, on the contents of the file at \<^verbatim>\<open>descriptions_path\<close>: it
  returns the outcome and the contents of the file afterwards. The file is opened for
  writing only after the loading and the update loops; an exception before that leaves
  it as it was. An exception in the writing loop leaves the lines written so far, and
  nothing is returned.
\<close>

definition update_duplicate_flags ::
  "(string \<Rightarrow> json option) \<Rightarrow> (json \<Rightarrow> error + string) \<Rightarrow> string list \<Rightarrow> (int \<rightharpoonup> bool)
     \<Rightarrow> (error + json list) \<times> string list"
where
  "update_duplicate_flags loads dumps content updates =
     (case load_entries loads content of
        Inl e \<Rightarrow> (Inl e, content)
      | Inr entries \<Rightarrow>
          (case update_entries updates entries of
             Inl e \<Rightarrow> (Inl e, content)
           | Inr entries' \<Rightarrow>
               (case write_entries dumps entries' [] of
                  (Some e, written) \<Rightarrow> (Inl e, written)
                | (None, written) \<Rightarrow> (Inr entries', written))))"

section \<open>Properties of the duplicate grouper\<close>

subsection \<open>The adjacency construction\<close>

lemma map_of_adj_add:
  "map_of (adj_add k v nb) =
     (map_of nb)(k \<mapsto> insert v (case map_of nb k of None \<Rightarrow> {} | Some S \<Rightarrow> S))"
  by (induction nb) (auto simp: fun_eq_iff)

lemma keys_adj_add:
  "map fst (adj_add k v nb) = (if k \<in> set (map fst nb) then map fst nb else map fst nb @ [k])"
  by (induction nb) (auto simp: rev_image_eqI)

lemma adj_edges_add: "adj_edges (adj_add k v nb) = insert (k, v) (adj_edges nb)"
  by (auto simp: adj_edges_def map_of_adj_add split: option.splits if_splits)

lemma adj_edges_Nil: "adj_edges [] = {}"
  by (simp add: adj_edges_def)

lemma good_adj_Nil: "good_adj []"
  by (simp add: good_adj_def adj_edges_Nil sym_def irrefl_def)

lemma good_adj_add_pair:
  assumes "good_adj nb" and "j \<noteq> q"
  shows "good_adj (adj_add j q (adj_add q j nb))"
proof -
  let ?nb = "adj_add j q (adj_add q j nb)"
  have E: "adj_edges ?nb = insert (j, q) (insert (q, j) (adj_edges nb))"
    by (simp add: adj_edges_add)
  have "distinct (map fst ?nb)"
    using assms(1) by (simp add: good_adj_def keys_adj_add)
  moreover have "sym (adj_edges ?nb)"
    using assms(1) unfolding E good_adj_def sym_def by blast
  moreover have "irrefl (adj_edges ?nb)"
    using assms unfolding E good_adj_def irrefl_def by auto
  moreover have "dom (map_of ?nb) = Domain (adj_edges ?nb)"
    using assms(1) unfolding E good_adj_def by (auto simp: map_of_adj_add)
  moreover have "\<forall>k S. map_of ?nb k = Some S \<longrightarrow> finite S"
    using assms(1) unfolding good_adj_def
    by (auto simp: map_of_adj_add split: option.splits if_splits)
  ultimately show ?thesis
    by (simp add: good_adj_def)
qed

lemma good_adj_add_row: "good_adj nb \<Longrightarrow> good_adj (add_row qid js nb)"
  by (induction qid js nb rule: add_row.induct) (auto simp: good_adj_add_pair)

lemma good_adj_build_rows:
  "good_adj nb \<Longrightarrow> build_rows lims labels qis nb = Inr nb' \<Longrightarrow> good_adj nb'"
  by (induction lims labels qis nb rule: build_rows.induct)
     (auto simp: Let_def good_adj_add_row split: if_splits)

lemma good_adj_build_adj: "build_adj n lims labels = Inr nb \<Longrightarrow> good_adj nb"
  unfolding build_adj_def using good_adj_build_rows [OF good_adj_Nil] by blast

lemma build_rows_returns:
  "(\<exists>nb'. build_rows lims labels qis nb = Inr nb') \<longleftrightarrow>
     (\<forall>qi\<in>set qis. Suc qi < length lims \<and>
        (lims ! qi \<noteq> lims ! Suc qi \<longrightarrow> lims ! qi < length labels))"
  by (induction lims labels qis nb rule: build_rows.induct) (auto simp: Let_def not_le)

lemma build_adj_returns: "(\<exists>nb. build_adj n lims labels = Inr nb) \<longleftrightarrow> csr_ok n lims labels"
  unfolding build_adj_def csr_ok_def by (rule build_rows_returns)

lemma good_adj_edge_ids: "good_adj nb \<Longrightarrow> edge_ids nb = dom (map_of nb)"
  unfolding good_adj_def edge_ids_def Field_def sym_def by blast

subsection \<open>The traversal\<close>

text \<open>
  One run of the traversal loop, from any stack of keys: it returns; what it adds to
  \<open>visited\<close> is what it appends to the component, without repetition; the stack ends
  up visited; every new id is connected to an id of the stack; and every neighbour of a
  new id is visited at the end.
\<close>

lemma dfs_spec:
  assumes "set_order ord"
    and "\<forall>k S. map_of nb k = Some S \<longrightarrow> finite S"
    and "Range (adj_edges nb) \<subseteq> dom (map_of nb)"
    and "set stack \<subseteq> dom (map_of nb)"
  shows "\<exists>new. dfs ord nb visited stack acc = Inr (visited \<union> set new, acc @ new) \<and>
           distinct new \<and> set new \<inter> visited = {} \<and>
           set stack \<subseteq> visited \<union> set new \<and>
           set new \<subseteq> (adj_edges nb)\<^sup>* `` set stack \<and>
           adj_edges nb `` set new \<subseteq> visited \<union> set new"
  using assms
proof (induction ord nb visited stack acc rule: dfs.induct)
  case (1 ord nb visited acc)
  show ?case
    by (rule exI [of _ "[]"]) simp
next
  case (2 ord nb visited cur stack acc)
  show ?case
  proof (cases "cur \<in> visited")
    case True
    from "2.prems" have "set stack \<subseteq> dom (map_of nb)"
      by simp
    from "2.IH"(1) [OF True "2.prems"(1-3) this]
    obtain new where new: "dfs ord nb visited stack acc = Inr (visited \<union> set new, acc @ new)"
      "distinct new" "set new \<inter> visited = {}" "set stack \<subseteq> visited \<union> set new"
      "set new \<subseteq> (adj_edges nb)\<^sup>* `` set stack"
      "adj_edges nb `` set new \<subseteq> visited \<union> set new"
      by blast
    have "set new \<subseteq> (adj_edges nb)\<^sup>* `` set (cur # stack)"
      using new(5) by auto
    with new True show ?thesis
      by (intro exI [of _ new]) auto
  next
    case False
    from "2.prems"(4) obtain ns where ns: "map_of nb cur = Some ns"
      by auto
    let ?V = "insert cur visited"
    let ?push = "ord (ns - ?V)"
    from ns "2.prems"(2) have "finite (ns - ?V)"
      by blast
    with "2.prems"(1) have push: "set ?push = ns - ?V"
      by (simp add: set_order_def)
    have ns_edges: "ns = adj_edges nb `` {cur}"
      using ns by (auto simp: adj_edges_def)
    then have "ns \<subseteq> dom (map_of nb)"
      using "2.prems"(3) by auto
    with push "2.prems"(4) have "set (rev ?push @ stack) \<subseteq> dom (map_of nb)"
      by auto
    from "2.IH"(2) [OF False ns "2.prems"(1-3) this]
    obtain new where new:
      "dfs ord nb ?V (rev ?push @ stack) (acc @ [cur]) = Inr (?V \<union> set new, (acc @ [cur]) @ new)"
      "distinct new" "set new \<inter> ?V = {}" "set (rev ?push @ stack) \<subseteq> ?V \<union> set new"
      "set new \<subseteq> (adj_edges nb)\<^sup>* `` set (rev ?push @ stack)"
      "adj_edges nb `` set new \<subseteq> ?V \<union> set new"
      by blast
    have run: "dfs ord nb visited (cur # stack) acc
        = Inr (visited \<union> set (cur # new), acc @ (cur # new))"
      using False ns new(1) by simp
    have reach: "set (cur # new) \<subseteq> (adj_edges nb)\<^sup>* `` set (cur # stack)"
    proof
      fix x assume "x \<in> set (cur # new)"
      then consider "x = cur" | "x \<in> set new" by auto
      then show "x \<in> (adj_edges nb)\<^sup>* `` set (cur # stack)"
      proof cases
        case 1
        then show ?thesis by auto
      next
        case 2
        with new(5) obtain s where s: "s \<in> set (rev ?push @ stack)" "(s, x) \<in> (adj_edges nb)\<^sup>*"
          by auto
        show ?thesis
        proof (cases "s \<in> set stack")
          case True
          with s show ?thesis by auto
        next
          case False
          with s push have "s \<in> ns" by auto
          with ns_edges have "(cur, s) \<in> adj_edges nb" by simp
          with s(2) have "(cur, x) \<in> (adj_edges nb)\<^sup>*" by simp
          then show ?thesis by auto
        qed
      qed
    qed
    have closed: "adj_edges nb `` set (cur # new) \<subseteq> visited \<union> set (cur # new)"
    proof -
      have "ns \<subseteq> ?V \<union> set new"
        using new(4) push by auto
      with ns_edges new(6) show ?thesis by auto
    qed
    from new(2,3,4) False have "distinct (cur # new)" "set (cur # new) \<inter> visited = {}"
      "set (cur # stack) \<subseteq> visited \<union> set (cur # new)"
      by auto
    with run reach closed show ?thesis
      by (intro exI [of _ "cur # new"]) blast
  qed
qed

text \<open>
  Started from one unvisited key, with a visited set that is closed under the edge
  relation, the traversal collects exactly the ids connected to that key.
\<close>

lemma dfs_component:
  assumes ord: "set_order ord"
    and fin: "\<forall>k S. map_of nb k = Some S \<longrightarrow> finite S"
    and sym: "sym (adj_edges nb)"
    and dom: "dom (map_of nb) = Domain (adj_edges nb)"
    and closed: "adj_edges nb `` visited \<subseteq> visited"
    and node: "node \<in> dom (map_of nb)" "node \<notin> visited"
  shows "\<exists>new. dfs ord nb visited [node] [] = Inr (visited \<union> set new, new) \<and>
           distinct new \<and> set new = (adj_edges nb)\<^sup>* `` {node} \<and> set new \<inter> visited = {}"
proof -
  let ?E = "adj_edges nb"
  have range: "Range ?E \<subseteq> dom (map_of nb)"
    using sym dom by (auto simp: sym_def)
  from node(1) have "set [node] \<subseteq> dom (map_of nb)"
    by simp
  from dfs_spec [OF ord fin range this, of visited "[]"]
  obtain new where new: "dfs ord nb visited [node] [] = Inr (visited \<union> set new, new)"
    "distinct new" "set new \<inter> visited = {}" "node \<in> visited \<union> set new"
    "set new \<subseteq> ?E\<^sup>* `` {node}" "?E `` set new \<subseteq> visited \<union> set new"
    by auto
  have "?E `` (visited \<union> set new) \<subseteq> visited \<union> set new"
    using closed new(6) by blast
  then have "?E\<^sup>* `` (visited \<union> set new) = visited \<union> set new"
    by (rule Image_closed_trancl)
  with new(4) have sub: "?E\<^sup>* `` {node} \<subseteq> visited \<union> set new"
    by blast
  have "?E\<^sup>* `` {node} \<inter> visited = {}"
  proof (rule ccontr)
    assume "?E\<^sup>* `` {node} \<inter> visited \<noteq> {}"
    then obtain x where x: "(node, x) \<in> ?E\<^sup>*" "x \<in> visited"
      by auto
    from sym have "sym (?E\<^sup>*)"
      by (rule sym_rtrancl)
    with x(1) have "(x, node) \<in> ?E\<^sup>*"
      by (simp add: sym_def)
    moreover from closed have "?E\<^sup>* `` visited = visited"
      by (rule Image_closed_trancl)
    ultimately have "node \<in> visited"
      using x(2) by blast
    with node(2) show False
      by simp
  qed
  with sub new(5) have "set new = ?E\<^sup>* `` {node}"
    by blast
  with new(1-3) show ?thesis
    by blast
qed

lemma components_spec:
  assumes "set_order ord"
    and "\<forall>k S. map_of nb k = Some S \<longrightarrow> finite S"
    and "sym (adj_edges nb)"
    and "dom (map_of nb) = Domain (adj_edges nb)"
    and "adj_edges nb `` visited \<subseteq> visited"
    and "set nodes \<subseteq> dom (map_of nb)"
  shows "\<exists>more. components ord nb nodes visited groups = Inr (groups @ more) \<and>
           map set more = spec_components (adj_edges nb) nodes visited \<and>
           distinct (concat more) \<and> set (concat more) \<inter> visited = {} \<and>
           set nodes \<subseteq> visited \<union> set (concat more) \<and>
           (\<forall>g\<in>set more. \<exists>k\<in>set nodes. set g = (adj_edges nb)\<^sup>* `` {k})"
  using assms
proof (induction nodes arbitrary: visited groups)
  case Nil
  show ?case
    by (rule exI [of _ "[]"]) simp
next
  case (Cons node nodes)
  let ?E = "adj_edges nb"
  from Cons.prems(6) have nodes: "set nodes \<subseteq> dom (map_of nb)" and node: "node \<in> dom (map_of nb)"
    by simp_all
  show ?case
  proof (cases "node \<in> visited")
    case True
    from Cons.IH [OF Cons.prems(1-5) nodes, of groups]
    obtain more where more: "components ord nb nodes visited groups = Inr (groups @ more)"
      "map set more = spec_components ?E nodes visited"
      "distinct (concat more)" "set (concat more) \<inter> visited = {}"
      "set nodes \<subseteq> visited \<union> set (concat more)"
      "\<forall>g\<in>set more. \<exists>k\<in>set nodes. set g = ?E\<^sup>* `` {k}"
      by blast
    from more(6) have "\<forall>g\<in>set more. \<exists>k\<in>set (node # nodes). set g = ?E\<^sup>* `` {k}"
      by auto
    with more(1-5) True show ?thesis
      by (intro exI [of _ more]) auto
  next
    case False
    from dfs_component [OF Cons.prems(1-5) node False]
    obtain new where new: "dfs ord nb visited [node] [] = Inr (visited \<union> set new, new)"
      "distinct new" "set new = ?E\<^sup>* `` {node}" "set new \<inter> visited = {}"
      by blast
    have "?E `` (?E\<^sup>* `` {node}) \<subseteq> ?E\<^sup>* `` {node}"
      by (auto intro: rtrancl_into_rtrancl)
    with Cons.prems(5) new(3) have closed: "?E `` (visited \<union> set new) \<subseteq> visited \<union> set new"
      by blast
    from Cons.IH [OF Cons.prems(1-4) closed nodes, of "groups @ [new]"]
    obtain more where more:
      "components ord nb nodes (visited \<union> set new) (groups @ [new]) = Inr ((groups @ [new]) @ more)"
      "map set more = spec_components ?E nodes (visited \<union> set new)"
      "distinct (concat more)" "set (concat more) \<inter> (visited \<union> set new) = {}"
      "set nodes \<subseteq> (visited \<union> set new) \<union> set (concat more)"
      "\<forall>g\<in>set more. \<exists>k\<in>set nodes. set g = ?E\<^sup>* `` {k}"
      by blast
    have run: "components ord nb (node # nodes) visited groups = Inr (groups @ (new # more))"
      using False new(1) more(1) by simp
    have cls: "map set (new # more) = spec_components ?E (node # nodes) visited"
      using False new(3) more(2) by simp
    have dist: "distinct (concat (new # more))"
      using new(2) more(3,4) by auto
    have disj: "set (concat (new # more)) \<inter> visited = {}"
      using new(4) more(4) by auto
    have "node \<in> set new"
      using new(3) by simp
    then have cover: "set (node # nodes) \<subseteq> visited \<union> set (concat (new # more))"
      using more(5) by auto
    have reach: "\<forall>g\<in>set (new # more). \<exists>k\<in>set (node # nodes). set g = ?E\<^sup>* `` {k}"
      using new(3) more(6) by auto
    from run cls dist disj cover reach show ?thesis
      by blast
  qed
qed

lemma distinct_concat_index:
  "distinct (concat xs) \<Longrightarrow> i < length xs \<Longrightarrow> j < length xs \<Longrightarrow>
     v \<in> set (xs ! i) \<Longrightarrow> v \<in> set (xs ! j) \<Longrightarrow> i = j"
proof (induction xs arbitrary: i j)
  case Nil
  then show ?case by simp
next
  case (Cons x xs)
  show ?case
  proof (cases i)
    case i0: 0
    show ?thesis
    proof (cases j)
      case 0
      with i0 show ?thesis by simp
    next
      case (Suc j')
      with Cons.prems i0 have "v \<in> set x" "v \<in> set (concat xs)"
        by auto
      with Cons.prems(1) show ?thesis by auto
    qed
  next
    case (Suc i')
    show ?thesis
    proof (cases j)
      case 0
      with Cons.prems Suc have "v \<in> set x" "v \<in> set (concat xs)"
        by auto
      with Cons.prems(1) show ?thesis by auto
    next
      case j: (Suc j')
      with Cons.prems Suc have "i' = j'"
        by (intro Cons.IH) auto
      with Suc j show ?thesis by simp
    qed
  qed
qed

lemma extract_components_spec:
  assumes ord: "set_order ord" and good: "good_adj nb"
  shows "\<exists>groups. extract_components ord nb = Inr groups \<and>
           map set groups = spec_components (adj_edges nb) (map fst nb) {} \<and>
           distinct (concat groups) \<and> set (concat groups) = edge_ids nb \<and>
           (\<forall>g\<in>set groups. \<exists>k\<in>edge_ids nb. set g = (adj_edges nb)\<^sup>* `` {k})"
proof -
  let ?E = "adj_edges nb"
  from good have fin: "\<forall>k S. map_of nb k = Some S \<longrightarrow> finite S" and sym: "sym ?E"
    and dom: "dom (map_of nb) = Domain ?E"
    by (simp_all add: good_adj_def)
  have ids: "edge_ids nb = dom (map_of nb)"
    using good by (rule good_adj_edge_ids)
  have keys: "set (map fst nb) = dom (map_of nb)"
    by (simp add: dom_map_of_conv_image_fst)
  then have nodes: "set (map fst nb) \<subseteq> dom (map_of nb)"
    by simp
  have "?E `` {} \<subseteq> {}"
    by simp
  from components_spec [OF ord fin sym dom this nodes, of "[]"]
  obtain groups where groups: "components ord nb (map fst nb) {} [] = Inr groups"
    "map set groups = spec_components ?E (map fst nb) {}"
    "distinct (concat groups)" "set (map fst nb) \<subseteq> set (concat groups)"
    "\<forall>g\<in>set groups. \<exists>k\<in>set (map fst nb). set g = ?E\<^sup>* `` {k}"
    by auto
  have "?E `` edge_ids nb \<subseteq> edge_ids nb"
    unfolding edge_ids_def Field_def by blast
  then have closed: "?E\<^sup>* `` edge_ids nb = edge_ids nb"
    by (rule Image_closed_trancl)
  have "set (concat groups) \<subseteq> edge_ids nb"
  proof
    fix v assume "v \<in> set (concat groups)"
    then obtain g where g: "g \<in> set groups" "v \<in> set g"
      by auto
    with groups(5) obtain k where "k \<in> set (map fst nb)" "set g = ?E\<^sup>* `` {k}"
      by blast
    with g(2) keys ids have "v \<in> ?E\<^sup>* `` edge_ids nb"
      by blast
    with closed show "v \<in> edge_ids nb"
      by simp
  qed
  with groups(4) keys ids have "set (concat groups) = edge_ids nb"
    by auto
  moreover have "set (map fst nb) = edge_ids nb"
    using keys ids by simp
  with groups(5) have "\<forall>g\<in>set groups. \<exists>k\<in>edge_ids nb. set g = ?E\<^sup>* `` {k}"
    by metis
  ultimately show ?thesis
    using groups(1-3) by (auto simp: extract_components_def)
qed

lemma collect_groups_spec:
  assumes ord: "set_order ord" and csr: "csr_ok n lims labels"
  shows "\<exists>nb groups. build_adj n lims labels = Inr nb \<and> good_adj nb \<and>
           collect_groups ord n lims labels = Inr groups \<and>
           map set groups = spec_components (adj_edges nb) (map fst nb) {} \<and>
           distinct (concat groups) \<and> set (concat groups) = edge_ids nb \<and>
           (\<forall>g\<in>set groups. \<exists>k\<in>edge_ids nb. set g = (adj_edges nb)\<^sup>* `` {k})"
proof -
  from csr obtain nb where nb: "build_adj n lims labels = Inr nb"
    using build_adj_returns by blast
  then have good: "good_adj nb"
    by (rule good_adj_build_adj)
  from extract_components_spec [OF ord good] nb good show ?thesis
    by (auto simp: collect_groups_def)
qed

lemma set_order_sorted: "set_order sorted_list_of_set"
  by (simp add: set_order_def)

subsection \<open>Partition, determinism, component size\<close>

text \<open>
  Claim C2. On every range-search result that the construction reads without an
  IndexError, \<open>collect_groups\<close> returns, and the components it returns partition the
  ids that appear in at least one edge of the adjacency structure: their union is that
  set of ids, no id occurs twice in the concatenation of the components (so no id is in
  two components, nor twice in one), no component is empty, each id of an edge is in
  exactly one component, and an id with no edge is in none.
\<close>

theorem collect_groups_partition:
  assumes "set_order ord" and "csr_ok n lims labels"
  shows "\<exists>nb groups. build_adj n lims labels = Inr nb \<and>
           collect_groups ord n lims labels = Inr groups \<and>
           \<Union> (set ` set groups) = edge_ids nb \<and>
           distinct (concat groups) \<and> [] \<notin> set groups \<and>
           (\<forall>v\<in>edge_ids nb. \<exists>!i. i < length groups \<and> v \<in> set (groups ! i)) \<and>
           (\<forall>v. v \<notin> edge_ids nb \<longrightarrow> (\<forall>g\<in>set groups. v \<notin> set g))"
proof -
  from collect_groups_spec [OF assms]
  obtain nb groups where run: "build_adj n lims labels = Inr nb"
    "collect_groups ord n lims labels = Inr groups"
    and dist: "distinct (concat groups)" and cover: "set (concat groups) = edge_ids nb"
    and cls: "\<forall>g\<in>set groups. \<exists>k\<in>edge_ids nb. set g = (adj_edges nb)\<^sup>* `` {k}"
    by blast
  from cover have union: "\<Union> (set ` set groups) = edge_ids nb"
    by simp
  have nonempty: "[] \<notin> set groups"
  proof
    assume "[] \<in> set groups"
    with cls obtain k where "set [] = (adj_edges nb)\<^sup>* `` {k}"
      by blast
    then show False
      by auto
  qed
  have unique: "\<forall>v\<in>edge_ids nb. \<exists>!i. i < length groups \<and> v \<in> set (groups ! i)"
  proof
    fix v assume "v \<in> edge_ids nb"
    with union obtain g where "g \<in> set groups" "v \<in> set g"
      by blast
    then obtain i where "i < length groups" "v \<in> set (groups ! i)"
      by (auto simp: in_set_conv_nth)
    then show "\<exists>!i. i < length groups \<and> v \<in> set (groups ! i)"
      using distinct_concat_index [OF dist] by blast
  qed
  have isolated: "\<forall>v. v \<notin> edge_ids nb \<longrightarrow> (\<forall>g\<in>set groups. v \<notin> set g)"
    using union by blast
  from run union dist nonempty unique isolated show ?thesis
    by blast
qed

theorem collect_groups_partition_witness:
  "csr_ok 3 [0, 3, 5, 6] [1, 2, 3, 2, 1, 3] \<and>
   collect_groups sorted_list_of_set 3 [0, 3, 5, 6] [1, 2, 3, 2, 1, 3] = Inr [[1, 3, 2]] \<and>
   (\<exists>nb groups. build_adj 3 [0, 3, 5, 6] [1, 2, 3, 2, 1, 3] = Inr nb \<and>
      collect_groups sorted_list_of_set 3 [0, 3, 5, 6] [1, 2, 3, 2, 1, 3] = Inr groups \<and>
      \<Union> (set ` set groups) = edge_ids nb \<and>
      distinct (concat groups) \<and> [] \<notin> set groups \<and>
      (\<forall>v\<in>edge_ids nb. \<exists>!i. i < length groups \<and> v \<in> set (groups ! i)) \<and>
      (\<forall>v. v \<notin> edge_ids nb \<longrightarrow> (\<forall>g\<in>set groups. v \<notin> set g)))"
proof -
  have csr: "csr_ok 3 [0, 3, 5, 6] [1, 2, 3, 2, 1, 3]"
    by code_simp
  have run: "collect_groups sorted_list_of_set 3 [0, 3, 5, 6] [1, 2, 3, 2, 1, 3] = Inr [[1, 3, 2]]"
    by code_simp
  from collect_groups_partition [OF set_order_sorted csr] csr run show ?thesis
    by blast
qed

lemma set_order_rev_sorted: "set_order (\<lambda>S. rev (sorted_list_of_set S))"
  by (simp add: set_order_def)

text \<open>
  Claim C8. On a fixed range-search result that the construction reads without an
  IndexError, two runs of \<open>collect_groups\<close> that iterate over sets in different
  orders both return, and they return the same set of components, each component taken
  as a set of ids; the components even come in the same order in the two lists.
\<close>

theorem collect_groups_deterministic:
  assumes "set_order ord1" and "set_order ord2" and "csr_ok n lims labels"
  shows "\<exists>groups1 groups2.
           collect_groups ord1 n lims labels = Inr groups1 \<and>
           collect_groups ord2 n lims labels = Inr groups2 \<and>
           set ` set groups1 = set ` set groups2 \<and>
           map set groups1 = map set groups2"
proof -
  from collect_groups_spec [OF assms(1,3)]
  obtain nb1 groups1 where 1: "build_adj n lims labels = Inr nb1"
    "collect_groups ord1 n lims labels = Inr groups1"
    "map set groups1 = spec_components (adj_edges nb1) (map fst nb1) {}"
    by blast
  from collect_groups_spec [OF assms(2,3)]
  obtain nb2 groups2 where 2: "build_adj n lims labels = Inr nb2"
    "collect_groups ord2 n lims labels = Inr groups2"
    "map set groups2 = spec_components (adj_edges nb2) (map fst nb2) {}"
    by blast
  from 1(1) 2(1) have "nb1 = nb2"
    by simp
  with 1(3) 2(3) have eq: "map set groups1 = map set groups2"
    by simp
  then have "set (map set groups1) = set (map set groups2)"
    by simp
  then have "set ` set groups1 = set ` set groups2"
    by simp
  with 1(2) 2(2) eq show ?thesis
    by blast
qed

theorem collect_groups_deterministic_witness:
  "csr_ok 3 [0, 3, 5, 6] [1, 2, 3, 2, 1, 3] \<and>
   collect_groups sorted_list_of_set 3 [0, 3, 5, 6] [1, 2, 3, 2, 1, 3] = Inr [[1, 3, 2]] \<and>
   collect_groups (\<lambda>S. rev (sorted_list_of_set S)) 3 [0, 3, 5, 6] [1, 2, 3, 2, 1, 3]
     = Inr [[1, 2, 3]] \<and>
   set ` set [[1, 3, 2]] = set ` set [[1, 2, 3 :: int]]"
proof -
  have csr: "csr_ok 3 [0, 3, 5, 6] [1, 2, 3, 2, 1, 3]"
    by code_simp
  have run1: "collect_groups sorted_list_of_set 3 [0, 3, 5, 6] [1, 2, 3, 2, 1, 3] = Inr [[1, 3, 2]]"
    by code_simp
  have run2: "collect_groups (\<lambda>S. rev (sorted_list_of_set S)) 3 [0, 3, 5, 6] [1, 2, 3, 2, 1, 3]
      = Inr [[1, 2, 3]]"
    by code_simp
  from collect_groups_deterministic [OF set_order_sorted set_order_rev_sorted csr] run1 run2
  have "set ` set [[1, 3, 2]] = set ` set [[1, 2, 3 :: int]]"
    by simp
  with csr run1 run2 show ?thesis
    by blast
qed

text \<open>
  Claim C9. Every component that \<open>collect_groups\<close> returns has at least two ids:
  every key of the adjacency structure has a neighbour other than itself, and the
  traversal collects it. So the guard \<^verbatim>\<open>len(group) <= 1\<close> of
  \<^verbatim>\<open>write_dedup_jsonl\<close> never passes over a component of the grouper.
\<close>

theorem collect_groups_no_singleton:
  assumes "set_order ord" and "csr_ok n lims labels"
  shows "\<exists>groups. collect_groups ord n lims labels = Inr groups \<and>
           (\<forall>g\<in>set groups. 2 \<le> length g)"
proof -
  from collect_groups_spec [OF assms]
  obtain nb groups where good: "good_adj nb"
    and run: "collect_groups ord n lims labels = Inr groups"
    and cls: "\<forall>g\<in>set groups. \<exists>k\<in>edge_ids nb. set g = (adj_edges nb)\<^sup>* `` {k}"
    by blast
  have "\<forall>g\<in>set groups. 2 \<le> length g"
  proof
    fix g assume "g \<in> set groups"
    with cls obtain k where k: "k \<in> edge_ids nb" "set g = (adj_edges nb)\<^sup>* `` {k}"
      by blast
    from k(1) good have "k \<in> Domain (adj_edges nb)"
      by (simp add: good_adj_edge_ids good_adj_def)
    then obtain v where v: "(k, v) \<in> adj_edges nb"
      by blast
    with good have "v \<noteq> k"
      by (auto simp: good_adj_def irrefl_def)
    moreover from v k(2) have "k \<in> set g" "v \<in> set g"
      by auto
    ultimately have "card {k, v} = 2" "{k, v} \<subseteq> set g"
      by auto
    then have "2 \<le> card (set g)"
      by (metis List.finite_set card_mono)
    also have "\<dots> \<le> length g"
      by (rule card_length)
    finally show "2 \<le> length g" .
  qed
  with run show ?thesis
    by blast
qed

theorem collect_groups_no_singleton_witness:
  "csr_ok 2 [0, 2, 4] [10, 20, 30, 40] \<and>
   (\<exists>groups. collect_groups sorted_list_of_set 2 [0, 2, 4] [10, 20, 30, 40] = Inr groups \<and>
      groups = [[10, 20], [30, 40]] \<and> list_all (\<lambda>g. 2 \<le> length g) groups)"
proof -
  have csr: "csr_ok 2 [0, 2, 4] [10, 20, 30, 40]"
    by code_simp
  have run: "collect_groups sorted_list_of_set 2 [0, 2, 4] [10, 20, 30, 40]
      = Inr [[10, 20], [30, 40]]"
    by code_simp
  from collect_groups_no_singleton [OF set_order_sorted csr] run
  have "list_all (\<lambda>g. 2 \<le> length g) [[10, 20], [30, 40 :: int]]"
    by (simp add: list_all_iff)
  with csr run show ?thesis
    by simp
qed

subsection \<open>Self-loops and the sentinel id\<close>

text \<open>
  The edges that one query row adds: between the canonical id of the row and every other
  label of the row that is not \<open>-1\<close>, in both directions.
\<close>

lemma adj_edges_add_row:
  "adj_edges (add_row qid js nb) =
     adj_edges nb \<union> (\<lambda>j. (qid, j)) ` {j \<in> set js. j \<noteq> - 1 \<and> j \<noteq> qid}
       \<union> (\<lambda>j. (j, qid)) ` {j \<in> set js. j \<noteq> - 1 \<and> j \<noteq> qid}"
proof (induction js arbitrary: nb)
  case Nil
  show ?case by simp
next
  case (Cons j js)
  let ?S = "{j \<in> set js. j \<noteq> - 1 \<and> j \<noteq> qid}"
  show ?case
  proof (cases "j = - 1 \<or> j = qid")
    case True
    then have "{i \<in> set (j # js). i \<noteq> - 1 \<and> i \<noteq> qid} = ?S"
      by auto
    with True Cons.IH [of nb] show ?thesis
      by simp
  next
    case False
    then have "{i \<in> set (j # js). i \<noteq> - 1 \<and> i \<noteq> qid} = insert j ?S"
      by auto
    moreover from False
    have "adj_edges (add_row qid (j # js) nb) =
        insert (j, qid) (insert (qid, j) (adj_edges nb)) \<union> (\<lambda>j. (qid, j)) ` ?S
          \<union> (\<lambda>j. (j, qid)) ` ?S"
      using Cons.IH [of "adj_add j qid (adj_add qid j nb)"] by (simp add: adj_edges_add)
    ultimately show ?thesis
      by (simp only: image_insert) blast
  qed
qed

lemma build_adj_no_self_loop: "build_adj n lims labels = Inr nb \<Longrightarrow> (v, v) \<notin> adj_edges nb"
  using good_adj_build_adj [of n lims labels nb] by (auto simp: good_adj_def irrefl_def)

text \<open>
  No edge touches \<open>-1\<close> as long as no non-empty row has \<open>-1\<close> as its first label.
\<close>

lemma build_rows_sentinel:
  assumes "build_rows lims labels qis nb = Inr nb'"
    and "- 1 \<notin> edge_ids nb"
    and "\<forall>qi\<in>set qis. lims ! qi \<noteq> lims ! Suc qi \<longrightarrow> labels ! (lims ! qi) \<noteq> - 1"
  shows "- 1 \<notin> edge_ids nb'"
  using assms
proof (induction lims labels qis nb rule: build_rows.induct)
  case (1 lims labels nb)
  then show ?case by simp
next
  case (2 lims labels qi qis nb)
  let ?start = "lims ! qi" and ?end = "lims ! Suc qi"
  show ?case
  proof (cases "?start = ?end")
    case True
    with "2.prems" "2.IH"(1) show ?thesis
      by (auto simp: Let_def split: if_splits)
  next
    case False
    let ?nb = "add_row (labels ! ?start) (slice labels ?start ?end) nb"
    from False "2.prems"(3) have "labels ! ?start \<noteq> - 1"
      by simp
    with "2.prems"(2) have "- 1 \<notin> edge_ids ?nb"
      unfolding edge_ids_def Field_def adj_edges_add_row by auto
    moreover from False "2.prems"(1) have "build_rows lims labels qis ?nb = Inr nb'"
      and "\<not> length lims \<le> Suc qi" and "\<not> length labels \<le> ?start"
      by (auto simp: Let_def split: if_splits)
    ultimately show ?thesis
      using "2.IH"(2) [of ?start ?end] False "2.prems"(3) by simp
  qed
qed

lemma build_adj_sentinel_free:
  assumes "build_adj n lims labels = Inr nb"
    and "\<forall>qi<n. lims ! qi \<noteq> lims ! Suc qi \<longrightarrow> labels ! (lims ! qi) \<noteq> - 1"
  shows "- 1 \<notin> edge_ids nb"
proof -
  have "- 1 \<notin> edge_ids []"
    by (simp add: edge_ids_def adj_edges_Nil)
  moreover from assms(2)
  have "\<forall>qi\<in>set [0..<n]. lims ! qi \<noteq> lims ! Suc qi \<longrightarrow> labels ! (lims ! qi) \<noteq> - 1"
    by simp
  ultimately show ?thesis
    using assms(1) build_rows_sentinel unfolding build_adj_def by blast
qed

text \<open>
  Claim C4. No self-loop is ever added (\<open>build_adj_no_self_loop\<close>), but the sentinel is kept
  out of the graph only as a neighbour, not as the canonical id of a row: the guard
  \<^verbatim>\<open>jid == -1\<close> is applied to the labels of the row and not to \<^verbatim>\<open>qid\<close>. On the
  range-search result with one row whose labels are \<open>-1\<close> and \<open>7\<close>, the adjacency
  structure has the edge between \<open>-1\<close> and \<open>7\<close>, and \<open>-1\<close> is in the component
  returned.
\<close>

theorem collect_groups_sentinel_edge:
  "build_adj 1 [0, 2] [- 1, 7] = Inr [(- 1, {7}), (7, {- 1})] \<and>
   (- 1, 7) \<in> adj_edges [(- 1, {7}), (7, {- 1})] \<and>
   collect_groups sorted_list_of_set 1 [0, 2] [- 1, 7] = Inr [[- 1, 7]]"
proof -
  have "build_adj 1 [0, 2] [- 1, 7] = Inr [(- 1, {7}), (7, {- 1})]"
    by code_simp
  moreover have "(- 1, 7) \<in> adj_edges [(- 1, {7}), (7, {- 1 :: int})]"
    by (simp add: adj_edges_def)
  moreover have "collect_groups sorted_list_of_set 1 [0, 2] [- 1, 7] = Inr [[- 1, 7]]"
    by code_simp
  ultimately show ?thesis
    by simp
qed

section \<open>Properties of the lookup builder\<close>

lemma video_record_Inl:
  "(\<exists>err. video_record entry clip fid = Inl err) \<longleftrightarrow>
     e_file_id entry = None \<or> e_file_name entry = None"
  by (simp add: video_record_def split: option.splits)

lemma image_record_Inl:
  "(\<exists>err. image_record entry fid = Inl err) \<longleftrightarrow>
     e_file_id entry = None \<or> e_file_name entry = None"
  by (simp add: image_record_def split: option.splits)

lemma video_record_error:
  "video_record entry clip fid = Inl err \<Longrightarrow>
     err = KeyError ''file_id'' \<or> err = KeyError ''file_name''"
  by (auto simp: video_record_def split: option.splits)

lemma image_record_error:
  "image_record entry fid = Inl err \<Longrightarrow>
     err = KeyError ''file_id'' \<or> err = KeyError ''file_name''"
  by (auto simp: image_record_def split: option.splits)

lemma add_clips_Inl:
  "(\<exists>err. add_clips entry cls lookup = Inl err) \<longleftrightarrow>
     list_ex (\<lambda>clip. c_faiss_id clip \<noteq> None) cls \<and>
     (e_file_id entry = None \<or> e_file_name entry = None)"
proof (induction cls arbitrary: lookup)
  case Nil
  show ?case by simp
next
  case (Cons clip cls)
  show ?case
  proof (cases "c_faiss_id clip")
    case None
    then show ?thesis
      using Cons.IH by simp
  next
    case (Some fid)
    show ?thesis
    proof (cases "video_record entry clip fid")
      case (Inl err)
      with Some video_record_Inl [of entry clip fid] show ?thesis
        by auto
    next
      case (Inr r)
      with video_record_Inl [of entry clip fid]
      have "\<not> (e_file_id entry = None \<or> e_file_name entry = None)"
        by auto
      with Some Inr Cons.IH [of "dict_set fid r lookup"] show ?thesis
        by simp
    qed
  qed
qed

lemma add_clips_error:
  "add_clips entry cls lookup = Inl err \<Longrightarrow>
     err = KeyError ''file_id'' \<or> err = KeyError ''file_name''"
  by (induction cls arbitrary: lookup)
     (auto split: option.splits sum.splits dest: video_record_error)

lemma build_entries_skip:
  "\<not> has_vector_id entry \<Longrightarrow> build_entries (entry # database) lookup = build_entries database lookup"
proof -
  assume skip: "\<not> has_vector_id entry"
  let ?clips = "case e_clips entry of None \<Rightarrow> [] | Some cs \<Rightarrow> cs"
  have "add_clips entry ?clips lookup = Inr lookup" if "e_media_type entry = Some ''video''"
  proof -
    from that skip have none: "\<not> list_ex (\<lambda>clip. c_faiss_id clip \<noteq> None) ?clips"
      by (simp add: has_vector_id_def)
    have "\<not> list_ex (\<lambda>clip. c_faiss_id clip \<noteq> None) cs \<Longrightarrow> add_clips entry cs lookup = Inr lookup" for cs
      by (induction cs) auto
    with none show ?thesis
      by blast
  qed
  moreover have "e_faiss_id entry = None" if "e_media_type entry = Some ''image''"
    using that skip by (simp add: has_vector_id_def)
  ultimately show ?thesis
    by simp
qed

lemma build_entries_Inl:
  "(\<exists>err. build_entries database lookup = Inl err) \<longleftrightarrow>
     (\<exists>entry\<in>set database. has_vector_id entry \<and>
        (e_file_id entry = None \<or> e_file_name entry = None))"
proof (induction database arbitrary: lookup)
  case Nil
  show ?case by simp
next
  case (Cons entry database)
  let ?missing = "e_file_id entry = None \<or> e_file_name entry = None"
  let ?clips = "case e_clips entry of None \<Rightarrow> [] | Some cs \<Rightarrow> cs"
  show ?case
  proof (cases "has_vector_id entry")
    case False
    then have "build_entries (entry # database) lookup = build_entries database lookup"
      by (rule build_entries_skip)
    with False Cons.IH [of lookup] show ?thesis
      by auto
  next
    case True
    show ?thesis
    proof (cases "e_media_type entry = Some ''video''")
      case video: True
      with True have ex: "list_ex (\<lambda>clip. c_faiss_id clip \<noteq> None) ?clips"
        by (simp add: has_vector_id_def)
      show ?thesis
      proof (cases "add_clips entry ?clips lookup")
        case (Inl err)
        with add_clips_Inl [of entry ?clips lookup] have ?missing
          by auto
        with Inl video True show ?thesis
          by auto
      next
        case (Inr lookup')
        with add_clips_Inl [of entry ?clips lookup] ex have "\<not> ?missing"
          by auto
        with Inr video Cons.IH [of lookup'] show ?thesis
          by auto
      qed
    next
      case False
      with True obtain fid where image: "e_media_type entry = Some ''image''"
        and fid: "e_faiss_id entry = Some fid"
        by (auto simp: has_vector_id_def)
      show ?thesis
      proof (cases "image_record entry fid")
        case (Inl err)
        with image_record_Inl [of entry fid] have ?missing
          by auto
        with Inl image fid True show ?thesis
          by auto
      next
        case (Inr r)
        with image_record_Inl [of entry fid] have "\<not> ?missing"
          by auto
        with Inr image fid Cons.IH [of "dict_set fid r lookup"] show ?thesis
          by auto
      qed
    qed
  qed
qed

lemma build_entries_error:
  "build_entries database lookup = Inl err \<Longrightarrow>
     err = KeyError ''file_id'' \<or> err = KeyError ''file_name''"
  by (induction database arbitrary: lookup)
     (auto split: if_splits option.splits sum.splits dest: add_clips_error image_record_error)

text \<open>
  Claim C5, as the code has it, on well-typed entries (the values of the type
  \<open>media_entry\<close>: every field that is present holds a value of its type in the data
  model, and only a vector id, the media type, \<^verbatim>\<open>clip_idx\<close>, \<^verbatim>\<open>start_s\<close> and
  \<^verbatim>\<open>end_s\<close> may be null). \<open>build_id_lookup\<close> raises exactly when some entry that
  carries a vector id (a video entry with a clip whose \<^verbatim>\<open>faiss_id\<close> is present, or an
  image entry whose \<^verbatim>\<open>faiss_id\<close> is present) has no \<^verbatim>\<open>file_id\<close> or no
  \<^verbatim>\<open>file_name\<close>; what it raises is the KeyError of one of these two fields, and no
  lookup is returned. An entry that carries no vector id is passed over without error,
  whatever fields it has, and so is a clip whose \<^verbatim>\<open>faiss_id\<close> is absent.
\<close>

theorem build_id_lookup_required_fields:
  "((\<exists>err. build_id_lookup database = Inl err) \<longleftrightarrow>
      (\<exists>entry\<in>set database. has_vector_id entry \<and>
         (e_file_id entry = None \<or> e_file_name entry = None))) \<and>
   (\<forall>err. build_id_lookup database = Inl err \<longrightarrow>
      err = KeyError ''file_id'' \<or> err = KeyError ''file_name'') \<and>
   (\<forall>entry rest lookup. \<not> has_vector_id entry \<longrightarrow>
      build_entries (entry # rest) lookup = build_entries rest lookup) \<and>
   (\<forall>entry clip cls lookup. c_faiss_id clip = None \<longrightarrow>
      add_clips entry (clip # cls) lookup = add_clips entry cls lookup)"
  unfolding build_id_lookup_def
  using build_entries_Inl [of database "[]"] build_entries_error [of database "[]"]
    build_entries_skip
  by auto

theorem build_id_lookup_required_fields_witness:
  "has_vector_id
     \<lparr>e_media_type = Some ''video'',
       e_clips = Some [\<lparr>c_clip_idx = Some 0, c_faiss_id = Some 3,
                         c_start_s = None, c_end_s = None\<rparr>],
       e_faiss_id = None, e_file_id = Some 1, e_file_name = None,
       e_prefix = None, e_duration = None, e_quality = None, e_metadata = None\<rparr> \<and>
   (\<exists>err. build_id_lookup
     [\<lparr>e_media_type = Some ''video'',
        e_clips = Some [\<lparr>c_clip_idx = Some 0, c_faiss_id = Some 3,
                          c_start_s = None, c_end_s = None\<rparr>],
        e_faiss_id = None, e_file_id = Some 1, e_file_name = None,
        e_prefix = None, e_duration = None, e_quality = None, e_metadata = None\<rparr>]
     = Inl err) \<and>
   build_id_lookup
     [\<lparr>e_media_type = Some ''video'',
        e_clips = Some [\<lparr>c_clip_idx = Some 0, c_faiss_id = Some 3,
                          c_start_s = None, c_end_s = None\<rparr>],
        e_faiss_id = None, e_file_id = Some 1, e_file_name = None,
        e_prefix = None, e_duration = None, e_quality = None, e_metadata = None\<rparr>]
     = Inl (KeyError ''file_name'')"
proof -
  let ?entry = "\<lparr>e_media_type = Some ''video'',
       e_clips = Some [\<lparr>c_clip_idx = Some 0, c_faiss_id = Some 3,
                         c_start_s = None, c_end_s = None\<rparr>],
       e_faiss_id = None, e_file_id = Some 1, e_file_name = None,
       e_prefix = None, e_duration = None, e_quality = None, e_metadata = None\<rparr>"
  have carries: "has_vector_id ?entry"
    by (simp add: has_vector_id_def)
  have "e_file_id ?entry = None \<or> e_file_name ?entry = None"
    by simp
  with carries have "has_vector_id ?entry \<and> (e_file_id ?entry = None \<or> e_file_name ?entry = None)"
    by (rule conjI)
  moreover have "?entry \<in> set [?entry]"
    by (rule list.set_intros(1))
  ultimately have ex: "\<exists>entry\<in>set [?entry]. has_vector_id entry \<and>
      (e_file_id entry = None \<or> e_file_name entry = None)"
    by (rule rev_bexI [rotated])
  from build_id_lookup_required_fields [of "[?entry]"]
  have "(\<exists>err. build_id_lookup [?entry] = Inl err) \<longleftrightarrow>
      (\<exists>entry\<in>set [?entry]. has_vector_id entry \<and>
         (e_file_id entry = None \<or> e_file_name entry = None))"
    by (rule conjunct1)
  from this ex have raises: "\<exists>err. build_id_lookup [?entry] = Inl err"
    by (rule iffD2)
  have run: "build_id_lookup [?entry] = Inl (KeyError ''file_name'')"
    by (simp add: build_id_lookup_def video_record_def)
  from carries raises run show ?thesis
    by (intro conjI)
qed

text \<open>
  Claim C5 as it is written fails: an image entry and a video entry that have neither
  \<^verbatim>\<open>file_id\<close> nor \<^verbatim>\<open>file_name\<close>, and no vector id, raise nothing; the lookup
  is built, and is empty.
\<close>

theorem build_id_lookup_missing_fields_counterexample:
  "build_id_lookup
     [\<lparr>e_media_type = Some ''image'', e_clips = None, e_faiss_id = None,
        e_file_id = None, e_file_name = None, e_prefix = None, e_duration = None,
        e_quality = None, e_metadata = None\<rparr>,
      \<lparr>e_media_type = Some ''video'',
        e_clips = Some [\<lparr>c_clip_idx = Some 0, c_faiss_id = None,
                          c_start_s = None, c_end_s = None\<rparr>],
        e_faiss_id = None,
        e_file_id = None, e_file_name = None, e_prefix = None, e_duration = None,
        e_quality = None, e_metadata = None\<rparr>] = Inr []"
  by (simp add: build_id_lookup_def)

section \<open>Properties of the pair aggregator and record writer\<close>

subsection \<open>Appending to a dictionary of lists\<close>

lemma dict_get_list_Nil: "dict_get_list [] k = []"
  by (simp add: dict_get_list_def)

lemma dict_get_list_append:
  "dict_get_list (dict_append k v d) k' =
     (if k' = k then dict_get_list d k @ [v] else dict_get_list d k')"
  by (induction d) (auto simp: dict_get_list_def)

lemma keys_dict_append:
  "map fst (dict_append k v d) = (if k \<in> set (map fst d) then map fst d else map fst d @ [k])"
  by (induction d) (auto simp: rev_image_eqI)

lemma key_set_dict_append: "set (map fst (dict_append k v d)) = insert k (set (map fst d))"
  by (simp add: keys_dict_append insert_absorb)

lemma values_dict_append:
  "\<forall>kv\<in>set d. snd kv \<noteq> [] \<Longrightarrow> \<forall>kv\<in>set (dict_append k v d). snd kv \<noteq> []"
  by (induction d) (fastforce split: if_splits)+

lemma dict_get_list_fold:
  "dict_get_list (foldl (\<lambda>d x. dict_append (kf x) (vf x) d) d xs) k =
     dict_get_list d k @ map vf (filter (\<lambda>x. kf x = k) xs)"
  by (induction xs arbitrary: d) (auto simp: dict_get_list_append)

lemma keys_fold:
  "set (map fst (foldl (\<lambda>d x. dict_append (kf x) (vf x) d) d xs)) = set (map fst d) \<union> kf ` set xs"
proof (induction xs arbitrary: d)
  case Nil
  show ?case by simp
next
  case (Cons x xs)
  have "set (map fst (foldl (\<lambda>d x. dict_append (kf x) (vf x) d) (dict_append (kf x) (vf x) d) xs))
      = set (map fst (dict_append (kf x) (vf x) d)) \<union> kf ` set xs"
    by (rule Cons.IH)
  then show ?case
    unfolding key_set_dict_append by simp
qed

lemma distinct_keys_fold:
  "distinct (map fst d) \<Longrightarrow> distinct (map fst (foldl (\<lambda>d x. dict_append (kf x) (vf x) d) d xs))"
  by (induction xs arbitrary: d) (auto simp: keys_dict_append)

lemma values_fold:
  "\<forall>kv\<in>set d. snd kv \<noteq> [] \<Longrightarrow>
     \<forall>kv\<in>set (foldl (\<lambda>d x. dict_append (kf x) (vf x) d) d xs). snd kv \<noteq> []"
proof (induction xs arbitrary: d)
  case Nil
  then show ?case by simp
next
  case (Cons x xs)
  from Cons.prems have "\<forall>kv\<in>set (dict_append (kf x) (vf x) d). snd kv \<noteq> []"
    by (rule values_dict_append)
  then show ?case
    using Cons.IH by simp
qed

subsection \<open>The accumulated map\<close>

text \<open>
  The map after all components is the map of all their appends, in order: its keys are
  distinct, no list is empty, and the list under a key holds the clip pairs that the
  components appended under that key, in order.
\<close>

lemma process_group_fold:
  "process_group lookup pair_map grp =
     foldl (\<lambda>d x. dict_append (fst x) (snd x) d) pair_map (group_pairs lookup grp)"
  by (simp add: process_group_def case_prod_unfold)

lemma foldl_process_group:
  "foldl (process_group lookup) pair_map groups =
     foldl (\<lambda>d x. dict_append (fst x) (snd x) d) pair_map (concat (map (group_pairs lookup) groups))"
  by (induction groups arbitrary: pair_map) (simp_all add: process_group_fold)

lemma accumulate_fold:
  "accumulate lookup groups =
     foldl (\<lambda>d x. dict_append (fst x) (snd x) d) [] (concat (map (group_pairs lookup) groups))"
  by (simp add: accumulate_def foldl_process_group)

lemma distinct_accumulate: "distinct (map fst (accumulate lookup groups))"
  by (simp add: accumulate_fold distinct_keys_fold)

lemma accumulate_nonempty: "\<forall>kv\<in>set (accumulate lookup groups). snd kv \<noteq> []"
  unfolding accumulate_fold by (rule values_fold) simp

lemma accumulate_item:
  assumes "(key, clip_pairs) \<in> set (accumulate lookup groups)"
  shows "clip_pairs = merged_pairs lookup groups key" and "clip_pairs \<noteq> []"
proof -
  from assms distinct_accumulate have "map_of (accumulate lookup groups) key = Some clip_pairs"
    by simp
  then have "dict_get_list (accumulate lookup groups) key = clip_pairs"
    by (simp add: dict_get_list_def)
  moreover have "dict_get_list (accumulate lookup groups) key = merged_pairs lookup groups key"
    unfolding accumulate_fold dict_get_list_fold merged_pairs_def
    by (simp add: dict_get_list_Nil)
  ultimately show "clip_pairs = merged_pairs lookup groups key"
    by simp
  from assms accumulate_nonempty [of lookup groups] show "clip_pairs \<noteq> []"
    by force
qed

text \<open>The clip pairs of a run under a key are those of its components, one after the other.\<close>

lemma merged_pairs_append:
  "merged_pairs lookup (groups @ groups') key =
     merged_pairs lookup groups key @ merged_pairs lookup groups' key"
  by (simp add: merged_pairs_def)

lemma first_or_zero_find:
  "first_or_zero (map f (filter P xs)) = (case find P xs of None \<Rightarrow> 0 | Some e \<Rightarrow> f e)"
  by (induction xs) (auto simp: first_or_zero_def)

lemma write_records_nonempty:
  "\<forall>kv\<in>set pm. snd kv \<noteq> [] \<Longrightarrow>
     \<exists>records. write_records lookup pm = Inr records \<and> length records = length pm \<and>
       (\<forall>i<length pm. make_record lookup (pm ! i) = Inr (records ! i))"
proof (induction pm)
  case Nil
  then show ?case by simp
next
  case (Cons item pm)
  then obtain records where rs: "write_records lookup pm = Inr records"
    "length records = length pm" "\<forall>i<length pm. make_record lookup (pm ! i) = Inr (records ! i)"
    by auto
  obtain key clip_pairs where item: "item = (key, clip_pairs)"
    by (cases item)
  with Cons.prems have "clip_pairs \<noteq> []"
    by auto
  then obtain r where r: "make_record lookup item = Inr r"
    by (cases key; cases clip_pairs) (auto simp: make_record_def item)
  have "\<forall>i<length (item # pm). make_record lookup ((item # pm) ! i) = Inr ((r # records) ! i)"
    using r rs(3) by (auto simp: nth_Cons split: nat.splits)
  with r rs(1,2) show ?case
    by (intro exI [of _ "r # records"]) simp
qed

text \<open>
  Claim C7. \<open>write_dedup_jsonl\<close> returns one record for each item of the accumulated
  map, in order, and the keys of the map are distinct. The record of the key
  \<open>(fid_a, fid_b)\<close> has these two file ids; its file names are those of the first clip
  pair accumulated under the key; each duration is the \<^verbatim>\<open>duration\<close> of the first
  lookup record, in the order of the lookup table, whose \<^verbatim>\<open>file_id\<close> is that of the
  side, and \<open>0\<close> when there is none; and its clips are all the clip pairs that the
  components of the run appended under the key.
\<close>

theorem write_dedup_jsonl_records:
  "\<exists>records. write_dedup_jsonl groups lookup = Inr records \<and>
     length records = length (accumulate lookup groups) \<and>
     distinct (map fst (accumulate lookup groups)) \<and>
     (\<forall>i<length records. \<exists>fid_a fid_b first rest.
        accumulate lookup groups ! i = ((fid_a, fid_b), first # rest) \<and>
        first # rest = merged_pairs lookup groups (fid_a, fid_b) \<and>
        records ! i =
          \<lparr>original_file_id = fid_a,
           original_file_name = file_name (original first),
           original_duration =
             (case find (\<lambda>e. file_id e = fid_a) (map snd lookup) of
                None \<Rightarrow> 0 | Some e \<Rightarrow> duration e),
           duplicate_file_id = fid_b,
           duplicate_file_name = file_name (duplicate first),
           duplicate_duration =
             (case find (\<lambda>e. file_id e = fid_b) (map snd lookup) of
                None \<Rightarrow> 0 | Some e \<Rightarrow> duration e),
           clips = first # rest\<rparr>)"
proof -
  let ?pm = "accumulate lookup groups"
  from write_records_nonempty [OF accumulate_nonempty, of lookup lookup groups]
  obtain records where rs: "write_records lookup ?pm = Inr records"
    "length records = length ?pm" "\<forall>i<length ?pm. make_record lookup (?pm ! i) = Inr (records ! i)"
    by blast
  have "\<exists>fid_a fid_b first rest.
        ?pm ! i = ((fid_a, fid_b), first # rest) \<and>
        first # rest = merged_pairs lookup groups (fid_a, fid_b) \<and>
        records ! i =
          \<lparr>original_file_id = fid_a,
           original_file_name = file_name (original first),
           original_duration =
             (case find (\<lambda>e. file_id e = fid_a) (map snd lookup) of
                None \<Rightarrow> 0 | Some e \<Rightarrow> duration e),
           duplicate_file_id = fid_b,
           duplicate_file_name = file_name (duplicate first),
           duplicate_duration =
             (case find (\<lambda>e. file_id e = fid_b) (map snd lookup) of
                None \<Rightarrow> 0 | Some e \<Rightarrow> duration e),
           clips = first # rest\<rparr>" if i: "i < length records" for i
  proof -
    obtain fid_a fid_b clip_pairs where item: "?pm ! i = ((fid_a, fid_b), clip_pairs)"
      by (metis surj_pair)
    with i rs(2) have mem: "((fid_a, fid_b), clip_pairs) \<in> set ?pm"
      by (metis nth_mem)
    have merged: "clip_pairs = merged_pairs lookup groups (fid_a, fid_b)"
      by (rule accumulate_item(1) [OF mem])
    from accumulate_item(2) [OF mem] obtain first rest where first: "clip_pairs = first # rest"
      by (cases clip_pairs) simp_all
    note cps = first merged
    from rs(3) i rs(2) have "make_record lookup (?pm ! i) = Inr (records ! i)"
      by simp
    then have "records ! i =
          \<lparr>original_file_id = fid_a,
           original_file_name = file_name (original first),
           original_duration = first_or_zero (durations lookup fid_a),
           duplicate_file_id = fid_b,
           duplicate_file_name = file_name (duplicate first),
           duplicate_duration = first_or_zero (durations lookup fid_b),
           clips = first # rest\<rparr>"
      by (simp add: make_record_def item cps(1))
    with item cps show ?thesis
      by (simp add: durations_def first_or_zero_find)
  qed
  with rs(1,2) distinct_accumulate show ?thesis
    by (auto simp: write_dedup_jsonl_def)
qed

theorem write_dedup_jsonl_records_witness:
  "\<exists>records. write_dedup_jsonl [[10, 11, 20]]
       [(10, \<lparr>file_id = 1, file_name = ''a.mp4'', media_type = ''video'',
               clip_idx = Some 0, start_s = None, end_s = None,
               faiss_id = 10, prefix = '''', duration = 4, variance = 0\<rparr>),
        (11, \<lparr>file_id = 1, file_name = ''a.mp4'', media_type = ''video'',
               clip_idx = Some 1, start_s = None, end_s = None,
               faiss_id = 11, prefix = '''', duration = 4, variance = 0\<rparr>),
        (20, \<lparr>file_id = 2, file_name = ''b.png'', media_type = ''image'',
               clip_idx = None, start_s = None, end_s = None,
               faiss_id = 20, prefix = '''', duration = 0, variance = 0\<rparr>)] = Inr records \<and>
     length records = 1 \<and>
     original_file_id (records ! 0) = 1 \<and> duplicate_file_id (records ! 0) = 2 \<and>
     original_file_name (records ! 0) = ''a.mp4'' \<and>
     duplicate_file_name (records ! 0) = ''b.png'' \<and>
     original_duration (records ! 0) = 4 \<and> duplicate_duration (records ! 0) = 0 \<and>
     map (\<lambda>cp. (clip_idx (original cp), clip_idx (duplicate cp))) (clips (records ! 0))
       = [(Some 0, None), (Some 1, None)]"
proof -
  let ?lookup = "[(10 :: int, \<lparr>file_id = 1, file_name = ''a.mp4'', media_type = ''video'',
               clip_idx = Some 0, start_s = None, end_s = None,
               faiss_id = 10, prefix = '''', duration = 4, variance = 0\<rparr>),
        (11, \<lparr>file_id = 1, file_name = ''a.mp4'', media_type = ''video'',
               clip_idx = Some 1, start_s = None, end_s = None,
               faiss_id = 11, prefix = '''', duration = 4, variance = 0\<rparr>),
        (20, \<lparr>file_id = 2, file_name = ''b.png'', media_type = ''image'',
               clip_idx = None, start_s = None, end_s = None,
               faiss_id = 20, prefix = '''', duration = 0, variance = 0\<rparr>)]"
  let ?groups = "[[10, 11, 20 :: int]]"
  let ?a = "\<lparr>file_id = 1, file_name = ''a.mp4'', media_type = ''video'',
               clip_idx = Some 0, start_s = None, end_s = None\<rparr>"
  let ?a' = "\<lparr>file_id = 1, file_name = ''a.mp4'', media_type = ''video'',
               clip_idx = Some 1, start_s = None, end_s = None\<rparr>"
  let ?b = "\<lparr>file_id = 2, file_name = ''b.png'', media_type = ''image'',
               clip_idx = None, start_s = None, end_s = None\<rparr>"
  have acc: "accumulate ?lookup ?groups =
      [((1, 2), [\<lparr>original = ?a, duplicate = ?b\<rparr>, \<lparr>original = ?a', duplicate = ?b\<rparr>])]"
    by code_simp
  from write_dedup_jsonl_records [of ?groups ?lookup]
  obtain records where all: "write_dedup_jsonl ?groups ?lookup = Inr records \<and>
      length records = length (accumulate ?lookup ?groups) \<and>
      distinct (map fst (accumulate ?lookup ?groups)) \<and>
      (\<forall>i<length records. \<exists>fid_a fid_b first rest. 
        accumulate ?lookup ?groups ! i = ((fid_a, fid_b), first # rest) \<and>
        first # rest = merged_pairs ?lookup ?groups (fid_a, fid_b) \<and>
        records ! i =
          \<lparr>original_file_id = fid_a,
           original_file_name = file_name (original first),
           original_duration =
             (case find (\<lambda>e. file_id e = fid_a) (map snd ?lookup) of
                None \<Rightarrow> 0 | Some e \<Rightarrow> duration e),
           duplicate_file_id = fid_b,
           duplicate_file_name = file_name (duplicate first),
           duplicate_duration =
             (case find (\<lambda>e. file_id e = fid_b) (map snd ?lookup) of
                None \<Rightarrow> 0 | Some e \<Rightarrow> duration e),
           clips = first # rest\<rparr>)"
    ..
  from all have run: "write_dedup_jsonl ?groups ?lookup = Inr records"
    by (rule conjunct1)
  from all have "length records = length (accumulate ?lookup ?groups)"
    by (rule conjunct2 [THEN conjunct1])
  then have len: "length records = 1"
    by (simp only: acc list.size)
  from all have items: "\<forall>i<length records. \<exists>fid_a fid_b first rest.
      
        accumulate ?lookup ?groups ! i = ((fid_a, fid_b), first # rest) \<and>
        first # rest = merged_pairs ?lookup ?groups (fid_a, fid_b) \<and>
        records ! i =
          \<lparr>original_file_id = fid_a,
           original_file_name = file_name (original first),
           original_duration =
             (case find (\<lambda>e. file_id e = fid_a) (map snd ?lookup) of
                None \<Rightarrow> 0 | Some e \<Rightarrow> duration e),
           duplicate_file_id = fid_b,
           duplicate_file_name = file_name (duplicate first),
           duplicate_duration =
             (case find (\<lambda>e. file_id e = fid_b) (map snd ?lookup) of
                None \<Rightarrow> 0 | Some e \<Rightarrow> duration e),
           clips = first # rest\<rparr>"
    by (rule conjunct2 [THEN conjunct2, THEN conjunct2])
  have pos: "0 < length records"
    by (simp only: len)
  from items have "0 < length records \<longrightarrow>
      (\<exists>fid_a fid_b first rest. 
        accumulate ?lookup ?groups ! 0 = ((fid_a, fid_b), first # rest) \<and>
        first # rest = merged_pairs ?lookup ?groups (fid_a, fid_b) \<and>
        records ! 0 =
          \<lparr>original_file_id = fid_a,
           original_file_name = file_name (original first),
           original_duration =
             (case find (\<lambda>e. file_id e = fid_a) (map snd ?lookup) of
                None \<Rightarrow> 0 | Some e \<Rightarrow> duration e),
           duplicate_file_id = fid_b,
           duplicate_file_name = file_name (duplicate first),
           duplicate_duration =
             (case find (\<lambda>e. file_id e = fid_b) (map snd ?lookup) of
                None \<Rightarrow> 0 | Some e \<Rightarrow> duration e),
           clips = first # rest\<rparr>)"
    by (rule allE)
  from this pos have "\<exists>fid_a fid_b first rest. 
        accumulate ?lookup ?groups ! 0 = ((fid_a, fid_b), first # rest) \<and>
        first # rest = merged_pairs ?lookup ?groups (fid_a, fid_b) \<and>
        records ! 0 =
          \<lparr>original_file_id = fid_a,
           original_file_name = file_name (original first),
           original_duration =
             (case find (\<lambda>e. file_id e = fid_a) (map snd ?lookup) of
                None \<Rightarrow> 0 | Some e \<Rightarrow> duration e),
           duplicate_file_id = fid_b,
           duplicate_file_name = file_name (duplicate first),
           duplicate_duration =
             (case find (\<lambda>e. file_id e = fid_b) (map snd ?lookup) of
                None \<Rightarrow> 0 | Some e \<Rightarrow> duration e),
           clips = first # rest\<rparr>"
    by (rule mp)
  then obtain fid_a fid_b first rest where item0: "
        accumulate ?lookup ?groups ! 0 = ((fid_a, fid_b), first # rest) \<and>
        first # rest = merged_pairs ?lookup ?groups (fid_a, fid_b) \<and>
        records ! 0 =
          \<lparr>original_file_id = fid_a,
           original_file_name = file_name (original first),
           original_duration =
             (case find (\<lambda>e. file_id e = fid_a) (map snd ?lookup) of
                None \<Rightarrow> 0 | Some e \<Rightarrow> duration e),
           duplicate_file_id = fid_b,
           duplicate_file_name = file_name (duplicate first),
           duplicate_duration =
             (case find (\<lambda>e. file_id e = fid_b) (map snd ?lookup) of
                None \<Rightarrow> 0 | Some e \<Rightarrow> duration e),
           clips = first # rest\<rparr>"
    by (elim exE)
  from item0 have "accumulate ?lookup ?groups ! 0 = ((fid_a, fid_b), first # rest)"
    by (rule conjunct1)
  then have "((1, 2), [\<lparr>original = ?a, duplicate = ?b\<rparr>, \<lparr>original = ?a', duplicate = ?b\<rparr>])
      = ((fid_a, fid_b), first # rest)"
    by (simp only: acc nth_Cons_0)
  then have vals: "fid_a = 1" "fid_b = 2" "first = \<lparr>original = ?a, duplicate = ?b\<rparr>"
    "rest = [\<lparr>original = ?a', duplicate = ?b\<rparr>]"
    by auto
  from item0 have rec: "records ! 0 =
          \<lparr>original_file_id = fid_a,
           original_file_name = file_name (original first),
           original_duration =
             (case find (\<lambda>e. file_id e = fid_a) (map snd ?lookup) of
                None \<Rightarrow> 0 | Some e \<Rightarrow> duration e),
           duplicate_file_id = fid_b,
           duplicate_file_name = file_name (duplicate first),
           duplicate_duration =
             (case find (\<lambda>e. file_id e = fid_b) (map snd ?lookup) of
                None \<Rightarrow> 0 | Some e \<Rightarrow> duration e),
           clips = first # rest\<rparr>"
    by (rule conjunct2 [THEN conjunct2])
  have rec0: "records ! 0 =
      \<lparr>original_file_id = 1, original_file_name = ''a.mp4'', original_duration = 4,
       duplicate_file_id = 2, duplicate_file_name = ''b.png'', duplicate_duration = 0,
       clips = [\<lparr>original = ?a, duplicate = ?b\<rparr>, \<lparr>original = ?a', duplicate = ?b\<rparr>]\<rparr>"
    unfolding rec vals by simp
  have fields: "original_file_id (records ! 0) = 1 \<and> duplicate_file_id (records ! 0) = 2 \<and>
     original_file_name (records ! 0) = ''a.mp4'' \<and>
     duplicate_file_name (records ! 0) = ''b.png'' \<and>
     original_duration (records ! 0) = 4 \<and> duplicate_duration (records ! 0) = 0 \<and>
     map (\<lambda>cp. (clip_idx (original cp), clip_idx (duplicate cp))) (clips (records ! 0))
       = [(Some 0, None), (Some 1, None)]"
    unfolding rec0 by simp
  from len fields have "length records = 1 \<and>
     original_file_id (records ! 0) = 1 \<and> duplicate_file_id (records ! 0) = 2 \<and>
     original_file_name (records ! 0) = ''a.mp4'' \<and>
     duplicate_file_name (records ! 0) = ''b.png'' \<and>
     original_duration (records ! 0) = 4 \<and> duplicate_duration (records ! 0) = 0 \<and>
     map (\<lambda>cp. (clip_idx (original cp), clip_idx (duplicate cp))) (clips (records ! 0))
       = [(Some 0, None), (Some 1, None)]"
    by (rule conjI)
  with run have "write_dedup_jsonl ?groups ?lookup = Inr records \<and>
     length records = 1 \<and>
     original_file_id (records ! 0) = 1 \<and> duplicate_file_id (records ! 0) = 2 \<and>
     original_file_name (records ! 0) = ''a.mp4'' \<and>
     duplicate_file_name (records ! 0) = ''b.png'' \<and>
     original_duration (records ! 0) = 4 \<and> duplicate_duration (records ! 0) = 0 \<and>
     map (\<lambda>cp. (clip_idx (original cp), clip_idx (duplicate cp))) (clips (records ! 0))
       = [(Some 0, None), (Some 1, None)]"
    by (rule conjI)
  then show ?thesis
    by (rule exI)
qed

subsection \<open>Components without a cross-file signal\<close>

lemma partition_by_file_keys:
  "set (map fst (partition_by_file entries)) = file_id ` set entries"
  "distinct (map fst (partition_by_file entries))"
  unfolding partition_by_file_def
  using keys_fold [of file_id "\<lambda>e. e" "[]" entries]
    distinct_keys_fold [of "[]" file_id "\<lambda>e. e" entries]
  by simp_all

lemma single_file_keys:
  assumes "\<forall>e\<in>set entries. \<forall>e'\<in>set entries. file_id e = file_id e'"
  shows "length (map fst (partition_by_file entries)) \<le> 1"
proof -
  let ?keys = "map fst (partition_by_file entries)"
  have "card (file_id ` set entries) \<le> 1"
  proof (cases entries)
    case Nil
    then show ?thesis by simp
  next
    case (Cons e es)
    then have "e \<in> set entries"
      by simp
    with assms have "\<forall>e'\<in>set entries. file_id e' = file_id e"
      by blast
    then have "file_id ` set entries \<subseteq> {file_id e}"
      by blast
    then have "card (file_id ` set entries) \<le> card {file_id e}"
      by (intro card_mono) simp_all
    then show ?thesis by simp
  qed
  then have "card (set ?keys) \<le> 1"
    by (simp only: partition_by_file_keys(1))
  moreover have "card (set ?keys) = length ?keys"
    by (rule distinct_card) (rule partition_by_file_keys(2))
  ultimately show ?thesis
    by simp
qed

text \<open>
  Claim C3. When fewer than two ids of a component are in the lookup table, or all the
  lookup records of the component have the same \<^verbatim>\<open>file_id\<close>, the component appends
  nothing to \<^verbatim>\<open>pair_map\<close>: the map is the same after the component as before, and
  the output of a run is the same with the component, at any place among the others, as
  without it.
\<close>

theorem no_cross_file_signal_no_record:
  assumes "length (mapped_entries lookup grp) < 2 \<or>
    (\<forall>e\<in>set (mapped_entries lookup grp). \<forall>e'\<in>set (mapped_entries lookup grp).
       file_id e = file_id e')"
  shows "group_pairs lookup grp = [] \<and>
    process_group lookup pair_map grp = pair_map \<and>
    write_dedup_jsonl (before @ [grp] @ after) lookup = write_dedup_jsonl (before @ after) lookup"
proof -
  have pairs: "group_pairs lookup grp = []"
  proof (cases "length (mapped_entries lookup grp) < 2")
    case True
    then show ?thesis
      by (simp add: group_pairs_def Let_def)
  next
    case False
    with assms have "length (map fst (partition_by_file (mapped_entries lookup grp))) \<le> 1"
      by (intro single_file_keys) blast
    then show ?thesis
      by (simp add: group_pairs_def Let_def)
  qed
  then have step: "process_group lookup pm grp = pm" for pm
    by (simp add: process_group_def)
  then have "accumulate lookup (before @ [grp] @ after) = accumulate lookup (before @ after)"
    by (simp add: accumulate_def)
  with pairs step show ?thesis
    by (simp add: write_dedup_jsonl_def)
qed

theorem no_cross_file_signal_no_record_witness:
  "mapped_entries
       [(30, \<lparr>file_id = 5, file_name = ''e.mp4'', media_type = ''video'',
               clip_idx = Some 0, start_s = None, end_s = None,
               faiss_id = 30, prefix = '''', duration = 0, variance = 0\<rparr>),
        (31, \<lparr>file_id = 5, file_name = ''e.mp4'', media_type = ''video'',
               clip_idx = Some 1, start_s = None, end_s = None,
               faiss_id = 31, prefix = '''', duration = 0, variance = 0\<rparr>)] [30, 31]
     = [\<lparr>file_id = 5, file_name = ''e.mp4'', media_type = ''video'',
               clip_idx = Some 0, start_s = None, end_s = None,
               faiss_id = 30, prefix = '''', duration = 0, variance = 0\<rparr>,
        \<lparr>file_id = 5, file_name = ''e.mp4'', media_type = ''video'',
               clip_idx = Some 1, start_s = None, end_s = None,
               faiss_id = 31, prefix = '''', duration = 0, variance = 0\<rparr>] \<and>
   write_dedup_jsonl [[30, 31]]
       [(30, \<lparr>file_id = 5, file_name = ''e.mp4'', media_type = ''video'',
               clip_idx = Some 0, start_s = None, end_s = None,
               faiss_id = 30, prefix = '''', duration = 0, variance = 0\<rparr>),
        (31, \<lparr>file_id = 5, file_name = ''e.mp4'', media_type = ''video'',
               clip_idx = Some 1, start_s = None, end_s = None,
               faiss_id = 31, prefix = '''', duration = 0, variance = 0\<rparr>)] = Inr []"
proof -
  let ?r30 = "\<lparr>file_id = 5, file_name = ''e.mp4'', media_type = ''video'',
               clip_idx = Some 0, start_s = None, end_s = None,
               faiss_id = 30, prefix = '''', duration = 0, variance = 0\<rparr>"
  let ?r31 = "\<lparr>file_id = 5, file_name = ''e.mp4'', media_type = ''video'',
               clip_idx = Some 1, start_s = None, end_s = None,
               faiss_id = 31, prefix = '''', duration = 0, variance = 0\<rparr>"
  let ?lookup = "[(30, ?r30), (31, ?r31)]"
  have entries: "mapped_entries ?lookup [30, 31] = [?r30, ?r31]"
    by (simp add: mapped_entries_def)
  have "\<forall>e\<in>set [?r30, ?r31]. \<forall>e'\<in>set [?r30, ?r31]. file_id e = file_id e'"
    by simp
  then have same: "\<forall>e\<in>set (mapped_entries ?lookup [30, 31]).
      \<forall>e'\<in>set (mapped_entries ?lookup [30, 31]). file_id e = file_id e'"
    by (simp only: entries)
  from no_cross_file_signal_no_record [OF disjI2 [OF same], where before = "[]" and after = "[]"]
  have "write_dedup_jsonl ([] @ [[30, 31]] @ []) ?lookup = write_dedup_jsonl ([] @ []) ?lookup"
    by (rule conjunct2 [THEN conjunct2])
  then have "write_dedup_jsonl [[30, 31]] ?lookup = write_dedup_jsonl [] ?lookup"
    by (simp only: append_Nil append_Nil2)
  moreover have "write_dedup_jsonl [] ?lookup = Inr []"
    by (simp add: write_dedup_jsonl_def accumulate_def)
  ultimately have none: "write_dedup_jsonl [[30, 31]] ?lookup = Inr []"
    by (rule trans)
  from entries none show ?thesis
    by (rule conjI)
qed

subsection \<open>Two components that meet the same two files in opposite orders\<close>

text \<open>
  Claim C1. The key of \<^verbatim>\<open>pair_map\<close> is the ordered pair \<^verbatim>\<open>(fid_a, fid_b)\<close>, in
  the order in which the component meets the two files. Two videos \<open>1\<close> and \<open>2\<close>
  with two clips each, indexed as \<open>10, 40\<close> and \<open>20, 30\<close>; the range search links
  \<open>10\<close> with \<open>20\<close> and \<open>30\<close> with \<open>40\<close>. The grouper returns the components
  \<open>[10, 20]\<close> and \<open>[30, 40]\<close>; the first meets file \<open>1\<close> first, the second meets
  file \<open>2\<close> first. The output has two records for the two files, \<open>(1, 2)\<close> and
  \<open>(2, 1)\<close>, each with the clip pair of one component, where the claim has one record
  with both.
\<close>

theorem write_dedup_jsonl_reversed_pair:
  "(case build_id_lookup
      [\<lparr>e_media_type = Some ''video'',
         e_clips = Some [\<lparr>c_clip_idx = Some 0, c_faiss_id = Some 10,
                           c_start_s = None, c_end_s = None\<rparr>,
                         \<lparr>c_clip_idx = Some 1, c_faiss_id = Some 40,
                           c_start_s = None, c_end_s = None\<rparr>],
         e_faiss_id = None, e_file_id = Some 1, e_file_name = Some ''a.mp4'',
         e_prefix = None, e_duration = None, e_quality = None, e_metadata = None\<rparr>,
       \<lparr>e_media_type = Some ''video'',
         e_clips = Some [\<lparr>c_clip_idx = Some 0, c_faiss_id = Some 20,
                           c_start_s = None, c_end_s = None\<rparr>,
                         \<lparr>c_clip_idx = Some 1, c_faiss_id = Some 30,
                           c_start_s = None, c_end_s = None\<rparr>],
         e_faiss_id = None, e_file_id = Some 2, e_file_name = Some ''b.mp4'',
         e_prefix = None, e_duration = None, e_quality = None, e_metadata = None\<rparr>]
    of Inl e \<Rightarrow> None
     | Inr lookup \<Rightarrow>
        (case collect_groups sorted_list_of_set 2 [0, 2, 4] [10, 20, 30, 40]
         of Inl e \<Rightarrow> None
          | Inr groups \<Rightarrow>
             (case write_dedup_jsonl groups lookup
              of Inl e \<Rightarrow> None
               | Inr records \<Rightarrow>
                  Some (groups,
                    map (\<lambda>r. (original_file_id r, duplicate_file_id r,
                              map (\<lambda>cp. (clip_idx (original cp), clip_idx (duplicate cp)))
                                (clips r)))
                      records))))
   = Some ([[10, 20], [30, 40]],
           [(1, 2, [(Some 0, Some 0)]), (2, 1, [(Some 1, Some 1)])])"
  by code_simp

section \<open>Properties of the duplicate-flag updater\<close>

lemma map_of_dict_set: "map_of (dict_set k v d) = (map_of d)(k \<mapsto> v)"
  by (induction d) (auto simp: fun_eq_iff)

lemma filter_dict_set:
  "filter (\<lambda>kv. fst kv \<noteq> k) (dict_set k v d) = filter (\<lambda>kv. fst kv \<noteq> k) d"
  by (induction d) auto

lemma load_entries_error:
  "\<exists>line\<in>set content. \<not> blank line \<and> loads line = None \<Longrightarrow>
     load_entries loads content = Inl JSONDecodeError"
proof (induction content)
  case Nil
  then show ?case by simp
next
  case (Cons line content)
  show ?case
  proof (cases "\<not> blank line \<and> loads line = None")
    case True
    then show ?thesis by simp
  next
    case False
    with Cons.prems have "\<exists>line\<in>set content. \<not> blank line \<and> loads line = None"
      by auto
    then have "load_entries loads content = Inl JSONDecodeError"
      by (rule Cons.IH)
    then show ?thesis
      by (simp split: option.splits)
  qed
qed

lemma load_entries_set:
  "load_entries loads content = Inr entries \<Longrightarrow>
     set entries = {v. \<exists>line\<in>set content. \<not> blank line \<and> loads line = Some v}"
proof (induction content arbitrary: entries)
  case Nil
  then show ?case by simp
next
  case (Cons line content)
  show ?case
  proof (cases "blank line")
    case True
    with Cons show ?thesis by auto
  next
    case False
    with Cons.prems obtain v vs where v: "loads line = Some v"
      and vs: "load_entries loads content = Inr vs" and entries: "entries = v # vs"
      by (auto split: option.splits sum.splits)
    from Cons.IH [OF vs] v entries False show ?thesis
      by auto
  qed
qed

lemma update_entry_unknown_key:
  assumes "\<forall>obj. entry = JObj obj \<longrightarrow> dict_key (get_file_id obj) \<noteq> Inr (Some k)"
  shows "update_entry (updates(k \<mapsto> b)) entry = update_entry updates entry"
proof (cases entry)
  case (JObj obj)
  with assms have "dict_key (get_file_id obj) \<noteq> Inr (Some k)"
    by simp
  then have "lookup_flag (updates(k \<mapsto> b)) obj = lookup_flag updates obj"
    by (auto simp: lookup_flag_def split: sum.splits option.splits)
  with JObj show ?thesis
    by simp
qed simp_all

lemma update_entries_unknown_key:
  "\<forall>obj. JObj obj \<in> set entries \<longrightarrow> dict_key (get_file_id obj) \<noteq> Inr (Some k) \<Longrightarrow>
     update_entries (updates(k \<mapsto> b)) entries = update_entries updates entries"
proof (induction entries)
  case Nil
  show ?case by simp
next
  case (Cons entry entries)
  from Cons.prems have "update_entry (updates(k \<mapsto> b)) entry = update_entry updates entry"
    by (intro update_entry_unknown_key) simp
  moreover from Cons.prems
  have "\<forall>obj. JObj obj \<in> set entries \<longrightarrow> dict_key (get_file_id obj) \<noteq> Inr (Some k)"
    by simp
  then have "update_entries (updates(k \<mapsto> b)) entries = update_entries updates entries"
    by (rule Cons.IH)
  ultimately show ?case
    by (simp only: update_entries.simps)
qed

lemma blank_examples: "\<not> blank ''a''" "\<not> blank ''b''" "\<not> blank ''oops''" "blank '' ''"
  by code_simp+

text \<open>
  Claim C6. When a line that is not blank fails to parse, \<open>update_duplicate_flags\<close>
  raises JSONDecodeError and the file is as it was. A key of the mapping that is the
  \<^verbatim>\<open>file_id\<close> of no entry of the file changes nothing: the outcome and the file are
  those of the run without that key.
\<close>

theorem update_duplicate_flags_errors:
  "((\<exists>line\<in>set content. \<not> blank line \<and> loads line = None) \<longrightarrow>
      update_duplicate_flags loads dumps content updates = (Inl JSONDecodeError, content)) \<and>
   ((\<forall>line\<in>set content. \<forall>obj. \<not> blank line \<and> loads line = Some (JObj obj) \<longrightarrow>
        dict_key (get_file_id obj) \<noteq> Inr (Some k)) \<longrightarrow>
      update_duplicate_flags loads dumps content (updates(k \<mapsto> b)) =
        update_duplicate_flags loads dumps content updates)"
proof (intro conjI impI)
  assume "\<exists>line\<in>set content. \<not> blank line \<and> loads line = None"
  then have "load_entries loads content = Inl JSONDecodeError"
    by (rule load_entries_error)
  then show "update_duplicate_flags loads dumps content updates = (Inl JSONDecodeError, content)"
    by (simp add: update_duplicate_flags_def)
next
  assume unknown: "\<forall>line\<in>set content. \<forall>obj. \<not> blank line \<and> loads line = Some (JObj obj) \<longrightarrow>
        dict_key (get_file_id obj) \<noteq> Inr (Some k)"
  show "update_duplicate_flags loads dumps content (updates(k \<mapsto> b)) =
        update_duplicate_flags loads dumps content updates"
  proof (cases "load_entries loads content")
    case (Inl err)
    then show ?thesis
      by (simp add: update_duplicate_flags_def)
  next
    case (Inr entries)
    from load_entries_set [OF Inr] unknown
    have "\<forall>obj. JObj obj \<in> set entries \<longrightarrow> dict_key (get_file_id obj) \<noteq> Inr (Some k)"
      by auto
    then have "update_entries (updates(k \<mapsto> b)) entries = update_entries updates entries"
      by (rule update_entries_unknown_key)
    with Inr show ?thesis
      by (simp add: update_duplicate_flags_def)
  qed
qed

theorem update_duplicate_flags_errors_witness:
  "update_duplicate_flags
     (\<lambda>line. if line = ''a'' then Some (JObj [(''file_id'', JInt 1), (''duplicate'', JBool False)])
              else None)
     (\<lambda>v. Inr ''x'') [''a'', ''oops''] [1 \<mapsto> True]
     = (Inl JSONDecodeError, [''a'', ''oops'']) \<and>
   update_duplicate_flags
     (\<lambda>line. if line = ''a'' then Some (JObj [(''file_id'', JInt 1), (''duplicate'', JBool False)])
              else None)
     (\<lambda>v. Inr ''x'') [''a'', '' '', ''a''] ([1 \<mapsto> True](7 \<mapsto> True))
     = update_duplicate_flags
     (\<lambda>line. if line = ''a'' then Some (JObj [(''file_id'', JInt 1), (''duplicate'', JBool False)])
              else None)
     (\<lambda>v. Inr ''x'') [''a'', '' '', ''a''] [1 \<mapsto> True]"
proof -
  let ?loads = "\<lambda>line. if line = ''a''
      then Some (JObj [(''file_id'', JInt 1), (''duplicate'', JBool False)]) else None"
  have "\<not> blank ''oops'' \<and> ?loads ''oops'' = None"
    by (simp add: blank_examples)
  then have bad: "\<exists>line\<in>set [''a'', ''oops'']. \<not> blank line \<and> ?loads line = None"
    by simp
  have unknown: "\<forall>line\<in>set [''a'', '' '', ''a'']. \<forall>obj.
      \<not> blank line \<and> ?loads line = Some (JObj obj) \<longrightarrow> dict_key (get_file_id obj) \<noteq> Inr (Some 7)"
    by (auto simp: get_file_id_def)
  have first: "update_duplicate_flags ?loads (\<lambda>v. Inr ''x'') [''a'', ''oops''] [1 \<mapsto> True]
      = (Inl JSONDecodeError, [''a'', ''oops''])"
    using update_duplicate_flags_errors
      [where content = "[''a'', ''oops'']" and loads = ?loads and dumps = "\<lambda>v. Inr ''x''"
         and updates = "[1 \<mapsto> True]"] bad
    by blast
  have second: "update_duplicate_flags ?loads (\<lambda>v. Inr ''x'') [''a'', '' '', ''a'']
        ([1 \<mapsto> True](7 \<mapsto> True))
      = update_duplicate_flags ?loads (\<lambda>v. Inr ''x'') [''a'', '' '', ''a''] [1 \<mapsto> True]"
    using update_duplicate_flags_errors
      [where content = "[''a'', '' '', ''a'']" and loads = ?loads and dumps = "\<lambda>v. Inr ''x''"
         and updates = "[1 \<mapsto> True]" and k = 7 and b = True] unknown
    by blast
  from first second show ?thesis
    by (rule conjI)
qed

lemma update_entry_frame:
  assumes "update_entry updates entry = Inr entry'"
  shows "\<exists>obj obj'. entry = JObj obj \<and> entry' = JObj obj' \<and>
           (\<forall>name. name \<noteq> ''duplicate'' \<longrightarrow> map_of obj' name = map_of obj name) \<and>
           filter (\<lambda>kv. fst kv \<noteq> ''duplicate'') obj' = filter (\<lambda>kv. fst kv \<noteq> ''duplicate'') obj \<and>
           (lookup_flag updates obj = Inr None \<and> obj' = obj \<or>
            (\<exists>b. lookup_flag updates obj = Inr (Some b) \<and>
                 map_of obj' ''duplicate'' = Some (JBool b)))"
proof (cases entry)
  case (JObj obj)
  show ?thesis
  proof (cases "lookup_flag updates obj")
    case (Inl err)
    with JObj assms show ?thesis by simp
  next
    case (Inr flag)
    show ?thesis
    proof (cases flag)
      case None
      with Inr JObj assms show ?thesis by auto
    next
      case (Some b)
      with Inr JObj assms have "entry' = JObj (dict_set ''duplicate'' (JBool b) obj)"
        by auto
      with Inr Some JObj show ?thesis
        by (simp add: map_of_dict_set filter_dict_set)
    qed
  qed
qed (use assms in simp_all)

lemma update_entries_frame:
  "(\<exists>err. update_entries updates entries = Inl err \<and>
      (\<exists>entry\<in>set entries. update_entry updates entry = Inl err)) \<or>
   (\<exists>out. update_entries updates entries = Inr out \<and> length out = length entries \<and>
      (\<forall>i<length entries. update_entry updates (entries ! i) = Inr (out ! i)))"
proof (induction entries)
  case Nil
  show ?case by simp
next
  case (Cons entry entries)
  show ?case
  proof (cases "update_entry updates entry")
    case (Inl err)
    then show ?thesis by auto
  next
    case entry': (Inr entry')
    from Cons.IH show ?thesis
    proof
      assume "\<exists>err. update_entries updates entries = Inl err \<and>
        (\<exists>entry\<in>set entries. update_entry updates entry = Inl err)"
      with entry' show ?thesis by auto
    next
      assume "\<exists>out. update_entries updates entries = Inr out \<and> length out = length entries \<and>
        (\<forall>i<length entries. update_entry updates (entries ! i) = Inr (out ! i))"
      then obtain out where out: "update_entries updates entries = Inr out"
        "length out = length entries"
        "\<forall>i<length entries. update_entry updates (entries ! i) = Inr (out ! i)"
        by blast
      have "\<forall>i<length (entry # entries).
          update_entry updates ((entry # entries) ! i) = Inr ((entry' # out) ! i)"
        using entry' out(3) by (auto simp: nth_Cons split: nat.splits)
      with entry' out(1,2) have "update_entries updates (entry # entries) = Inr (entry' # out) \<and>
        length (entry' # out) = length (entry # entries) \<and>
        (\<forall>i<length (entry # entries).
          update_entry updates ((entry # entries) ! i) = Inr ((entry' # out) ! i))"
        by simp
      then show ?thesis by blast
    qed
  qed
qed

lemma update_entry_returns:
  assumes "entry = JObj obj" and "dict_key (get_file_id obj) = Inr key"
  shows "\<exists>entry'. update_entry updates entry = Inr entry'"
  using assms by (simp add: lookup_flag_def split: option.splits)

text \<open>
  The writing loop, when every entry can be written: it writes one line for each entry,
  in order, after the lines already written, and raises nothing.
\<close>

lemma write_entries_returns:
  "\<forall>entry\<in>set entries. \<exists>line. dumps entry = Inr line \<Longrightarrow>
     \<exists>lines. write_entries dumps entries written = (None, written @ lines) \<and>
       list_all2 (\<lambda>entry line. dumps entry = Inr line) entries lines"
proof (induction entries arbitrary: written)
  case Nil
  show ?case by simp
next
  case (Cons entry entries)
  from Cons.prems obtain line where line: "dumps entry = Inr line"
    by auto
  from Cons.prems have "\<forall>entry\<in>set entries. \<exists>line. dumps entry = Inr line"
    by simp
  from Cons.IH [OF this, of "written @ [line]"]
  obtain lines where lines: "write_entries dumps entries (written @ [line])
      = (None, (written @ [line]) @ lines)"
    "list_all2 (\<lambda>entry line. dumps entry = Inr line) entries lines"
    by blast
  from line lines have "write_entries dumps (entry # entries) written
      = (None, written @ (line # lines)) \<and>
    list_all2 (\<lambda>entry line. dumps entry = Inr line) (entry # entries) (line # lines)"
    by simp
  then show ?case
    by blast
qed

text \<open>
  The writing loop, when an entry cannot be written: the exception of the first such
  entry, and the lines of the entries before it.
\<close>

lemma write_entries_raises:
  "list_all2 (\<lambda>entry line. dumps entry = Inr line) before lines \<Longrightarrow> dumps entry = Inl err \<Longrightarrow>
     write_entries dumps (before @ entry # after) written = (Some err, written @ lines)"
proof (induction before arbitrary: lines written)
  case Nil
  then show ?case by simp
next
  case (Cons b before)
  from Cons.prems(1) obtain l ls where lines: "lines = l # ls" and l: "dumps b = Inr l"
    and ls: "list_all2 (\<lambda>entry line. dumps entry = Inr line) before ls"
    by (auto simp: list_all2_Cons1)
  from Cons.IH [OF ls Cons.prems(2), of "written @ [l]"] l lines show ?case
    by simp
qed

text \<open>
  Claim C10, as the code has it. The lines of the file all parse; every entry is an
  object whose \<^verbatim>\<open>file_id\<close> is absent, null, a boolean, a number or a string; and
  every updated entry can be serialised and written. Then the function returns a list
  with one entry for each entry of the file, in the same order, and the file holds one
  line for each entry of that list, in the same order, the line that \<open>dumps\<close> makes
  of it. Every returned entry is an object with the same fields in the same order,
  \<^verbatim>\<open>duplicate\<close> apart, and the same value for every field but \<^verbatim>\<open>duplicate\<close>; an
  entry whose \<^verbatim>\<open>file_id\<close> is not a key of the mapping is returned as it was, and an
  entry whose \<^verbatim>\<open>file_id\<close> is a key has the flag of the mapping as its
  \<^verbatim>\<open>duplicate\<close>.
\<close>

theorem update_duplicate_flags_frame:
  assumes load: "load_entries loads content = Inr entries"
    and objects: "\<forall>entry\<in>set entries. \<exists>obj key.
      entry = JObj obj \<and> dict_key (get_file_id obj) = Inr key"
    and writable: "\<forall>out. update_entries updates entries = Inr out \<longrightarrow>
      (\<forall>entry\<in>set out. \<exists>line. dumps entry = Inr line)"
  shows
   "\<exists>out lines. update_duplicate_flags loads dumps content updates = (Inr out, lines) \<and>
       length out = length entries \<and>
       list_all2 (\<lambda>entry line. dumps entry = Inr line) out lines \<and>
       (\<forall>i<length entries. \<exists>obj obj'.
          entries ! i = JObj obj \<and> out ! i = JObj obj' \<and>
          (\<forall>name. name \<noteq> ''duplicate'' \<longrightarrow> map_of obj' name = map_of obj name) \<and>
          filter (\<lambda>kv. fst kv \<noteq> ''duplicate'') obj' =
            filter (\<lambda>kv. fst kv \<noteq> ''duplicate'') obj \<and>
          (lookup_flag updates obj = Inr None \<and> obj' = obj \<or>
           (\<exists>b. lookup_flag updates obj = Inr (Some b) \<and>
                map_of obj' ''duplicate'' = Some (JBool b))))"
proof -
  have "\<not> (\<exists>err. update_entries updates entries = Inl err \<and>
      (\<exists>entry\<in>set entries. update_entry updates entry = Inl err))"
  proof
    assume "\<exists>err. update_entries updates entries = Inl err \<and>
      (\<exists>entry\<in>set entries. update_entry updates entry = Inl err)"
    then obtain err entry where entry: "entry \<in> set entries"
      and err: "update_entry updates entry = Inl err"
      by blast
    from objects entry obtain obj key where "entry = JObj obj"
      "dict_key (get_file_id obj) = Inr key"
      by blast
    then have "\<exists>entry'. update_entry updates entry = Inr entry'"
      by (rule update_entry_returns)
    with err show False
      by simp
  qed
  with update_entries_frame [of updates entries]
  obtain out where out: "update_entries updates entries = Inr out"
    "length out = length entries"
    "\<forall>i<length entries. update_entry updates (entries ! i) = Inr (out ! i)"
    by blast
  from writable out(1) have "\<forall>entry\<in>set out. \<exists>line. dumps entry = Inr line"
    by blast
  from write_entries_returns [OF this, of "[]"]
  obtain lines where lines: "write_entries dumps out [] = (None, lines)"
    "list_all2 (\<lambda>entry line. dumps entry = Inr line) out lines"
    by auto
  from load out(1) lines(1)
  have run: "update_duplicate_flags loads dumps content updates = (Inr out, lines)"
    by (simp add: update_duplicate_flags_def)
  have "\<forall>i<length entries. \<exists>obj obj'.
          entries ! i = JObj obj \<and> out ! i = JObj obj' \<and>
          (\<forall>name. name \<noteq> ''duplicate'' \<longrightarrow> map_of obj' name = map_of obj name) \<and>
          filter (\<lambda>kv. fst kv \<noteq> ''duplicate'') obj' =
            filter (\<lambda>kv. fst kv \<noteq> ''duplicate'') obj \<and>
          (lookup_flag updates obj = Inr None \<and> obj' = obj \<or>
           (\<exists>b. lookup_flag updates obj = Inr (Some b) \<and>
                map_of obj' ''duplicate'' = Some (JBool b)))"
    using out(3) update_entry_frame by blast
  with run out(2) lines(2) show ?thesis
    by blast
qed

theorem update_duplicate_flags_frame_witness:
  "load_entries
     (\<lambda>line. if line = ''a'' then Some (JObj [(''file_id'', JInt 1), (''duplicate'', JBool False)])
              else if line = ''b'' then Some (JObj [(''name'', JStr ''n''), (''file_id'', JInt 2)])
              else None)
     [''a'', '' '', ''b'']
     = Inr [JObj [(''file_id'', JInt 1), (''duplicate'', JBool False)],
            JObj [(''name'', JStr ''n''), (''file_id'', JInt 2)]] \<and>
   update_duplicate_flags
     (\<lambda>line. if line = ''a'' then Some (JObj [(''file_id'', JInt 1), (''duplicate'', JBool False)])
              else if line = ''b'' then Some (JObj [(''name'', JStr ''n''), (''file_id'', JInt 2)])
              else None)
     (\<lambda>v. Inr ''x'') [''a'', '' '', ''b''] [1 \<mapsto> True]
     = (Inr [JObj [(''file_id'', JInt 1), (''duplicate'', JBool True)],
             JObj [(''name'', JStr ''n''), (''file_id'', JInt 2)]], [''x'', ''x'']) \<and>
   (\<exists>out lines. update_duplicate_flags
     (\<lambda>line. if line = ''a'' then Some (JObj [(''file_id'', JInt 1), (''duplicate'', JBool False)])
              else if line = ''b'' then Some (JObj [(''name'', JStr ''n''), (''file_id'', JInt 2)])
              else None)
     (\<lambda>v. Inr ''x'') [''a'', '' '', ''b''] [1 \<mapsto> True]
     = (Inr out, lines) \<and> length out = 2)"
proof -
  let ?loads = "\<lambda>line. if line = ''a''
      then Some (JObj [(''file_id'', JInt 1), (''duplicate'', JBool False)])
      else if line = ''b'' then Some (JObj [(''name'', JStr ''n''), (''file_id'', JInt 2)])
      else None"
  let ?dumps = "\<lambda>v :: json. Inr ''x'' :: error + string"
  let ?entries = "[JObj [(''file_id'', JInt 1), (''duplicate'', JBool False)],
            JObj [(''name'', JStr ''n''), (''file_id'', JInt 2)]]"
  have load: "load_entries ?loads [''a'', '' '', ''b''] = Inr ?entries"
    by (simp add: blank_examples)
  have upd: "update_entries [1 \<mapsto> True] ?entries
      = Inr [JObj [(''file_id'', JInt 1), (''duplicate'', JBool True)],
             JObj [(''name'', JStr ''n''), (''file_id'', JInt 2)]]"
    by (simp add: lookup_flag_def get_file_id_def)
  have wr: "write_entries ?dumps [JObj [(''file_id'', JInt 1), (''duplicate'', JBool True)],
             JObj [(''name'', JStr ''n''), (''file_id'', JInt 2)]] [] = (None, [''x'', ''x''])"
    by simp
  have run: "update_duplicate_flags ?loads ?dumps [''a'', '' '', ''b''] [1 \<mapsto> True]
      = (Inr [JObj [(''file_id'', JInt 1), (''duplicate'', JBool True)],
              JObj [(''name'', JStr ''n''), (''file_id'', JInt 2)]], [''x'', ''x''])"
    by (simp only: update_duplicate_flags_def load upd wr sum.case prod.case option.case)
  have objects: "\<forall>entry\<in>set ?entries. \<exists>obj key.
      entry = JObj obj \<and> dict_key (get_file_id obj) = Inr key"
    by (simp add: get_file_id_def)
  have writable: "\<forall>out. update_entries [1 \<mapsto> True] ?entries = Inr out \<longrightarrow>
      (\<forall>entry\<in>set out. \<exists>line. ?dumps entry = Inr line)"
    by simp
  from update_duplicate_flags_frame [OF load objects writable]
  have "\<exists>out lines. update_duplicate_flags ?loads ?dumps [''a'', '' '', ''b''] [1 \<mapsto> True]
      = (Inr out, lines) \<and> length out = 2"
    unfolding run by auto
  with load run show ?thesis
    by (intro conjI)
qed

text \<open>
  Claim C10 as it is written fails, in three ways. A line that holds the number \<open>3\<close>
  parses, and the update loop raises AttributeError on it: no list is returned and
  nothing is rewritten. The same happens, with TypeError, on an object whose
  \<^verbatim>\<open>file_id\<close> is a list. And when the second of two entries cannot be written, the
  function raises after it has emptied the file and written the first line: the file
  is left with that line alone.
\<close>

theorem update_duplicate_flags_frame_counterexample:
  "load_entries (\<lambda>line. if line = ''3'' then Some (JInt 3) else None) [''3''] = Inr [JInt 3] \<and>
   update_duplicate_flags (\<lambda>line. if line = ''3'' then Some (JInt 3) else None)
     (\<lambda>v. Inr ''x'') [''3''] [1 \<mapsto> True]
     = (Inl AttributeError, [''3'']) \<and>
   load_entries (\<lambda>line. if line = ''c'' then Some (JObj [(''file_id'', JArr [])]) else None)
     [''c''] = Inr [JObj [(''file_id'', JArr [])]] \<and>
   update_duplicate_flags
     (\<lambda>line. if line = ''c'' then Some (JObj [(''file_id'', JArr [])]) else None)
     (\<lambda>v. Inr ''x'') [''c''] [1 \<mapsto> True]
     = (Inl TypeError, [''c'']) \<and>
   load_entries
     (\<lambda>line. if line = ''a'' then Some (JObj [(''file_id'', JInt 1)])
              else if line = ''b'' then Some (JObj [(''file_id'', JInt 2)])
              else None)
     [''a'', ''b'']
     = Inr [JObj [(''file_id'', JInt 1)], JObj [(''file_id'', JInt 2)]] \<and>
   update_duplicate_flags
     (\<lambda>line. if line = ''a'' then Some (JObj [(''file_id'', JInt 1)])
              else if line = ''b'' then Some (JObj [(''file_id'', JInt 2)])
              else None)
     (\<lambda>v. if v = JObj [(''file_id'', JInt 2)] then Inl UnicodeEncodeError else Inr ''x'')
     [''a'', ''b''] Map.empty
     = (Inl UnicodeEncodeError, [''x''])"
proof -
  have blank3: "\<not> blank ''3''"
    by code_simp
  have blankc: "\<not> blank ''c''"
    by code_simp
  have "load_entries (\<lambda>line. if line = ''3'' then Some (JInt 3) else None) [''3'']
      = Inr [JInt 3]"
    by (simp add: blank3)
  moreover have "update_duplicate_flags (\<lambda>line. if line = ''3'' then Some (JInt 3) else None)
     (\<lambda>v. Inr ''x'') [''3''] [1 \<mapsto> True]
     = (Inl AttributeError, [''3''])"
    by (simp add: update_duplicate_flags_def blank3)
  moreover have "load_entries
     (\<lambda>line. if line = ''c'' then Some (JObj [(''file_id'', JArr [])]) else None)
     [''c''] = Inr [JObj [(''file_id'', JArr [])]]"
    by (simp add: blankc)
  moreover have "update_duplicate_flags
     (\<lambda>line. if line = ''c'' then Some (JObj [(''file_id'', JArr [])]) else None)
     (\<lambda>v. Inr ''x'') [''c''] [1 \<mapsto> True]
     = (Inl TypeError, [''c''])"
    by (simp add: update_duplicate_flags_def blankc lookup_flag_def get_file_id_def)
  moreover have "load_entries
     (\<lambda>line. if line = ''a'' then Some (JObj [(''file_id'', JInt 1)])
              else if line = ''b'' then Some (JObj [(''file_id'', JInt 2)])
              else None)
     [''a'', ''b'']
     = Inr [JObj [(''file_id'', JInt 1)], JObj [(''file_id'', JInt 2)]]"
    by (simp add: blank_examples)
  moreover have "update_duplicate_flags
     (\<lambda>line. if line = ''a'' then Some (JObj [(''file_id'', JInt 1)])
              else if line = ''b'' then Some (JObj [(''file_id'', JInt 2)])
              else None)
     (\<lambda>v. if v = JObj [(''file_id'', JInt 2)] then Inl UnicodeEncodeError else Inr ''x'')
     [''a'', ''b''] Map.empty
     = (Inl UnicodeEncodeError, [''x''])"
    by (simp add: update_duplicate_flags_def blank_examples lookup_flag_def get_file_id_def)
  ultimately show ?thesis
    by (intro conjI)
qed

end
